theory Spec2Isabelle
  imports Main "HOL-Library.Word"
begin

unbundle bit_operations_syntax

section \<open>Fatal path\<close>

text \<open>
  \<^verbatim>\<open>EFM_ASSERT(e)\<close> halts the firmware when \<^verbatim>\<open>e\<close> is false. Every function that can
  reach an assertion returns a sum: \<open>Inl\<close> is the halt, \<open>Inr\<close> the state the C code
  leaves behind. An array access outside the array is undefined behaviour in C and is
  a halt of its own kind in the model, and so is a busy-wait on a hardware flag that
  the hardware of the model does not raise.
\<close>

datatype halt = AssertFailed | OutOfBounds | NoReturn

section \<open>Sleep arbiter (sleep_routines.c)\<close>

text \<open>
  The header \<^verbatim>\<open>sleep_routines.h\<close> is not among the sources. The comments of
  \<^verbatim>\<open>sleep_routines.c\<close> speak of "all 5 of the energy modes" and of "the Energy Mode
  (EM0 - EM4)", which fixes the macros below.
\<close>

definition EM0 :: nat where "EM0 = 0"
definition EM1 :: nat where "EM1 = 1"
definition EM2 :: nat where "EM2 = 2"
definition EM3 :: nat where "EM3 = 3"
definition EM4 :: nat where "EM4 = 4"
definition MAX_ENERGY_MODES :: nat where "MAX_ENERGY_MODES = 5"

text \<open>
  \<^verbatim>\<open>static int lowest_energy_mode[MAX_ENERGY_MODES]\<close>: the hold counters, one per mode.
\<close>

type_synonym hold_table = "int list"

text \<open>\<^verbatim>\<open>sleep_open\<close>: \<^verbatim>\<open>lowest_energy_mode[i] &= ~lowest_energy_mode[i]\<close> for every mode.\<close>

definition sleep_open :: "hold_table \<Rightarrow> hold_table" where
  "sleep_open em = map (\<lambda>c. c AND NOT c) em"

text \<open>
  \<^verbatim>\<open>sleep_unblock_mode(EM)\<close>: decrement, then \<^verbatim>\<open>EFM_ASSERT(lowest_energy_mode[EM] >= 0)\<close>.
\<close>

definition sleep_unblock_mode :: "nat \<Rightarrow> hold_table \<Rightarrow> halt + hold_table" where
  "sleep_unblock_mode m em =
     (if \<not> m < length em then Inl OutOfBounds
      else let em' = em[m := em ! m - 1]
           in if em' ! m \<ge> 0 then Inr em' else Inl AssertFailed)"

text \<open>
  \<^verbatim>\<open>sleep_block_mode(EM)\<close>: increment, then \<^verbatim>\<open>EFM_ASSERT(lowest_energy_mode[EM] < 5)\<close>.
\<close>

definition sleep_block_mode :: "nat \<Rightarrow> hold_table \<Rightarrow> halt + hold_table" where
  "sleep_block_mode m em =
     (if \<not> m < length em then Inl OutOfBounds
      else let em' = em[m := em ! m + 1]
           in if em' ! m < 5 then Inr em' else Inl AssertFailed)"

text \<open>
  \<^verbatim>\<open>enter_sleep\<close> calls at most one of the three low-power entry primitives of the
  vendor library; the model returns the call it makes.
\<close>

datatype emu_call = EMU_EnterEM1 | EMU_EnterEM2 bool | EMU_EnterEM3 bool

definition enter_sleep :: "hold_table \<Rightarrow> emu_call option" where
  "enter_sleep em =
     (if em ! EM0 > 0 then None
      else if em ! EM1 > 0 then None
      else if em ! EM2 > 0 then Some EMU_EnterEM1
      else if em ! EM3 > 0 then Some (EMU_EnterEM2 True)
      else Some (EMU_EnterEM3 True))"

text \<open>
  The energy mode the processor is in after \<^verbatim>\<open>enter_sleep\<close>: it stays in EM0 when no
  primitive is called.
\<close>

fun mode_entered :: "emu_call option \<Rightarrow> nat" where
  "mode_entered None = 0"
| "mode_entered (Some EMU_EnterEM1) = 1"
| "mode_entered (Some (EMU_EnterEM2 _)) = 2"
| "mode_entered (Some (EMU_EnterEM3 _)) = 3"

text \<open>
  \<^verbatim>\<open>current_block_energy_mode\<close>: the loop \<^verbatim>\<open>for (i = 0; i < MAX_ENERGY_MODES; i++)\<close>
  returns the first \<^verbatim>\<open>i\<close> with a nonzero counter, and \<^verbatim>\<open>MAX_ENERGY_MODES - 1\<close> after
  the loop.
\<close>

function block_scan :: "nat \<Rightarrow> hold_table \<Rightarrow> nat" where
  "block_scan i em =
     (if i < MAX_ENERGY_MODES
      then (if em ! i \<noteq> 0 then i else block_scan (i + 1) em)
      else MAX_ENERGY_MODES - 1)"
  by pat_completeness auto
termination
  by (relation "measure (\<lambda>(i, em). MAX_ENERGY_MODES - i)") auto

declare block_scan.simps [simp del]

definition current_block_energy_mode :: "hold_table \<Rightarrow> nat" where
  "current_block_energy_mode em = block_scan 0 em"

text \<open>A sequence of calls into the arbiter, stopped by the first halt.\<close>

datatype sleep_call = Block nat | Unblock nat

fun sleep_step :: "sleep_call \<Rightarrow> hold_table \<Rightarrow> halt + hold_table" where
  "sleep_step (Block m) em = sleep_block_mode m em"
| "sleep_step (Unblock m) em = sleep_unblock_mode m em"

fun sleep_run :: "sleep_call list \<Rightarrow> hold_table \<Rightarrow> halt + hold_table" where
  "sleep_run [] em = Inr em"
| "sleep_run (c # cs) em =
     (case sleep_step c em of Inl h \<Rightarrow> Inl h | Inr em' \<Rightarrow> sleep_run cs em')"

section \<open>Event scheduler (scheduler.c)\<close>

text \<open>\<^verbatim>\<open>static unsigned int event_scheduled\<close>, 32 bits wide on the target.\<close>

type_synonym events = "32 word"

definition scheduler_open :: "events \<Rightarrow> events" where
  "scheduler_open event_scheduled = event_scheduled AND NOT event_scheduled"

definition add_scheduled_event :: "events \<Rightarrow> events \<Rightarrow> events" where
  "add_scheduled_event event event_scheduled = event_scheduled OR event"

definition remove_scheduled_event :: "events \<Rightarrow> events \<Rightarrow> events" where
  "remove_scheduled_event event event_scheduled = event_scheduled AND NOT event"

definition get_scheduled_events :: "events \<Rightarrow> events" where
  "get_scheduled_events event_scheduled = event_scheduled"

section \<open>What the drivers share\<close>

text \<open>
  The drivers call into the sleep arbiter and the scheduler. Their part of the global
  state is the hold table and the event bit field; \<open>calls\<close> is an observation log of
  the calls made, oldest first, so that "exactly once" can be said of a call.
\<close>

datatype call = Sleep_block nat | Sleep_unblock nat | Add_event events

record kernel =
  lowest_energy_mode :: hold_table
  event_scheduled :: events
  calls :: "call list"

definition and_then :: "halt + 'a \<Rightarrow> ('a \<Rightarrow> halt + 'b) \<Rightarrow> halt + 'b" where
  "and_then r f = (case r of Inl h \<Rightarrow> Inl h | Inr x \<Rightarrow> f x)"

definition k_sleep_block_mode :: "nat \<Rightarrow> 'a kernel_scheme \<Rightarrow> halt + 'a kernel_scheme" where
  "k_sleep_block_mode m k =
     (case sleep_block_mode m (lowest_energy_mode k) of
        Inl h \<Rightarrow> Inl h
      | Inr em \<Rightarrow> Inr (k\<lparr>lowest_energy_mode := em, calls := calls k @ [Sleep_block m]\<rparr>))"

definition k_sleep_unblock_mode :: "nat \<Rightarrow> 'a kernel_scheme \<Rightarrow> halt + 'a kernel_scheme" where
  "k_sleep_unblock_mode m k =
     (case sleep_unblock_mode m (lowest_energy_mode k) of
        Inl h \<Rightarrow> Inl h
      | Inr em \<Rightarrow> Inr (k\<lparr>lowest_energy_mode := em, calls := calls k @ [Sleep_unblock m]\<rparr>))"

definition k_add_scheduled_event :: "events \<Rightarrow> 'a kernel_scheme \<Rightarrow> 'a kernel_scheme" where
  "k_add_scheduled_event event k =
     k\<lparr>event_scheduled := add_scheduled_event event (event_scheduled k),
       calls := calls k @ [Add_event event]\<rparr>"

section \<open>Bus transaction state machine (i2c.c, i2c.h)\<close>

datatype DEFINED_STATES =
  start_comm | send_cmd | read_request | read_ms_byte | read_ls_byte | stop_comm

text \<open>
  The registers of \<^verbatim>\<open>I2C_TypeDef\<close> that \<^verbatim>\<open>i2c_start\<close> and the interrupt handlers touch.
  The vendor header with the bit masks is not among the sources, so the command bits
  are a datatype, \<open>bus_idle\<close> is the truth value of
  \<^verbatim>\<open>(STATE & _I2C_STATE_STATE_MASK) == I2C_STATE_STATE_IDLE\<close>, and the writes to
  \<^verbatim>\<open>CMD\<close> and \<^verbatim>\<open>TXDATA\<close> are kept in the order they are made.
\<close>

datatype i2c_cmd = I2C_CMD_START | I2C_CMD_STOP | I2C_CMD_ACK | I2C_CMD_NACK | I2C_CMD_CLEARTX

datatype i2c_write = CMD i2c_cmd | TXDATA "32 word"

record I2C_TypeDef =
  bus_idle :: bool
  RXDATA :: "32 word"
  written :: "i2c_write list"

text \<open>
  \<^verbatim>\<open>I2C_STATE_MACHINE\<close>. The field \<^verbatim>\<open>peripheral\<close> points to the one peripheral of the
  model; \<^verbatim>\<open>read_value\<close> points to the cell \<open>read_cell\<close> of the system below.
\<close>

record I2C_STATE_MACHINE =
  state :: DEFINED_STATES
  device_address :: "32 word"
  command :: "32 word"
  sm_busy :: bool
  read :: bool

record i2c_system = kernel +
  i2c_peripheral_state :: I2C_STATE_MACHINE
  scheduled_read_cb :: "32 word"
  i2c :: I2C_TypeDef
  read_cell :: "32 word"

definition i2c_write :: "i2c_write list \<Rightarrow> i2c_system \<Rightarrow> i2c_system" where
  "i2c_write ws s = s\<lparr>i2c := (i2c s)\<lparr>written := written (i2c s) @ ws\<rparr>\<rparr>"

definition sm_set :: "(I2C_STATE_MACHINE \<Rightarrow> I2C_STATE_MACHINE) \<Rightarrow> i2c_system \<Rightarrow> i2c_system" where
  "sm_set f s = s\<lparr>i2c_peripheral_state := f (i2c_peripheral_state s)\<rparr>"

text \<open>\<^verbatim>\<open>slave_address << 1 | read\<close>, the address byte with the direction bit.\<close>

definition address_byte :: "32 word \<Rightarrow> bool \<Rightarrow> 32 word" where
  "address_byte a rd = push_bit 1 a OR (if rd then 1 else 0)"

text \<open>
  \<^verbatim>\<open>i2c_start\<close>. Its one assertion is on the hardware state; \<^verbatim>\<open>sm_busy\<close> is neither
  read nor written (the line that wrote it is commented out in the source).
\<close>

definition i2c_start :: "32 word \<Rightarrow> 32 word \<Rightarrow> 32 word \<Rightarrow> i2c_system \<Rightarrow> halt + i2c_system" where
  "i2c_start slave_address cmd callback s =
     (if \<not> bus_idle (i2c s) then Inl AssertFailed
      else and_then (k_sleep_block_mode EM2 s) (\<lambda>s1.
        Inr (i2c_write [CMD I2C_CMD_START, TXDATA (address_byte slave_address False)]
              ((sm_set (\<lambda>m. m\<lparr>device_address := slave_address, read := False,
                                command := cmd, state := start_comm\<rparr>) s1)
                 \<lparr>scheduled_read_cb := callback\<rparr>))))"

definition i2c_start_interrupt :: "i2c_system \<Rightarrow> halt + i2c_system" where
  "i2c_start_interrupt s =
     (case state (i2c_peripheral_state s) of
        start_comm \<Rightarrow> Inr s
      | send_cmd \<Rightarrow> Inr s
      | read_request \<Rightarrow> Inr s
      | read_ms_byte \<Rightarrow> Inr s
      | read_ls_byte \<Rightarrow> Inr s
      | stop_comm \<Rightarrow> Inl AssertFailed)"

definition i2c_ack_interrupt :: "i2c_system \<Rightarrow> halt + i2c_system" where
  "i2c_ack_interrupt s =
     (case state (i2c_peripheral_state s) of
        start_comm \<Rightarrow>
          Inr (sm_set (\<lambda>m. m\<lparr>state := send_cmd\<rparr>)
                (i2c_write [CMD I2C_CMD_CLEARTX, TXDATA (command (i2c_peripheral_state s))]
                  (sm_set (\<lambda>m. m\<lparr>sm_busy := True, read := False\<rparr>) s)))
      | send_cmd \<Rightarrow>
          Inr (sm_set (\<lambda>m. m\<lparr>read := True, state := read_request\<rparr>)
                (i2c_write [CMD I2C_CMD_CLEARTX, CMD I2C_CMD_START,
                            TXDATA (address_byte (device_address (i2c_peripheral_state s)) True)] s))
      | read_request \<Rightarrow>
          Inr (sm_set (\<lambda>m. m\<lparr>state := read_ms_byte\<rparr>) (i2c_write [CMD I2C_CMD_CLEARTX] s))
      | read_ms_byte \<Rightarrow> Inr s
      | read_ls_byte \<Rightarrow> Inr s
      | stop_comm \<Rightarrow> Inl AssertFailed)"

definition i2c_nack_interrupt :: "i2c_system \<Rightarrow> halt + i2c_system" where
  "i2c_nack_interrupt s =
     (case state (i2c_peripheral_state s) of
        start_comm \<Rightarrow> Inl AssertFailed
      | send_cmd \<Rightarrow> Inr s
      | read_request \<Rightarrow>
          Inr (sm_set (\<lambda>m. m\<lparr>read := True, state := read_request\<rparr>)
                (i2c_write [CMD I2C_CMD_CLEARTX, CMD I2C_CMD_START,
                            TXDATA (address_byte (device_address (i2c_peripheral_state s)) True)] s))
      | read_ms_byte \<Rightarrow> Inl AssertFailed
      | read_ls_byte \<Rightarrow> Inl AssertFailed
      | stop_comm \<Rightarrow> Inl AssertFailed)"

definition i2c_mstop_interrupt :: "i2c_system \<Rightarrow> halt + i2c_system" where
  "i2c_mstop_interrupt s =
     (case state (i2c_peripheral_state s) of
        start_comm \<Rightarrow> Inl AssertFailed
      | send_cmd \<Rightarrow> Inl AssertFailed
      | read_request \<Rightarrow> Inl AssertFailed
      | read_ms_byte \<Rightarrow> Inl AssertFailed
      | read_ls_byte \<Rightarrow> Inl AssertFailed
      | stop_comm \<Rightarrow>
          and_then (k_sleep_unblock_mode EM2 (sm_set (\<lambda>m. m\<lparr>sm_busy := False\<rparr>) s)) (\<lambda>s1.
            Inr (k_add_scheduled_event (scheduled_read_cb s1) s1)))"

definition i2c_rxdatav_interrupt :: "i2c_system \<Rightarrow> halt + i2c_system" where
  "i2c_rxdatav_interrupt s =
     (case state (i2c_peripheral_state s) of
        start_comm \<Rightarrow> Inl AssertFailed
      | send_cmd \<Rightarrow> Inl AssertFailed
      | read_request \<Rightarrow> Inl AssertFailed
      | read_ms_byte \<Rightarrow>
          Inr (sm_set (\<lambda>m. m\<lparr>state := read_ls_byte\<rparr>)
                (i2c_write [CMD I2C_CMD_ACK]
                  ((i2c_write [CMD I2C_CMD_CLEARTX] s)\<lparr>read_cell := push_bit 8 (RXDATA (i2c s))\<rparr>)))
      | read_ls_byte \<Rightarrow>
          Inr (sm_set (\<lambda>m. m\<lparr>state := stop_comm\<rparr>)
                (i2c_write [CMD I2C_CMD_NACK, CMD I2C_CMD_STOP]
                  ((i2c_write [CMD I2C_CMD_CLEARTX] s)\<lparr>read_cell := read_cell s OR RXDATA (i2c s)\<rparr>)))
      | stop_comm \<Rightarrow> Inl AssertFailed)"

text \<open>
  \<^verbatim>\<open>I2C0_IRQHandler\<close> and \<^verbatim>\<open>I2C1_IRQHandler\<close>: \<open>flag_state\<close> tells which of the five
  flags are set in \<^verbatim>\<open>IF & IEN\<close>; the handlers run in the order of the source.
\<close>

datatype i2c_flag = I2C_IF_START | I2C_IF_ACK | I2C_IF_NACK | I2C_IF_MSTOP | I2C_IF_RXDATAV

definition on_flag :: "bool \<Rightarrow> ('a \<Rightarrow> halt + 'a) \<Rightarrow> 'a \<Rightarrow> halt + 'a" where
  "on_flag b handler s = (if b then handler s else Inr s)"

definition I2C_IRQHandler :: "(i2c_flag \<Rightarrow> bool) \<Rightarrow> i2c_system \<Rightarrow> halt + i2c_system" where
  "I2C_IRQHandler flag_state s =
     and_then (on_flag (flag_state I2C_IF_START) i2c_start_interrupt s) (\<lambda>s.
     and_then (on_flag (flag_state I2C_IF_ACK) i2c_ack_interrupt s) (\<lambda>s.
     and_then (on_flag (flag_state I2C_IF_NACK) i2c_nack_interrupt s) (\<lambda>s.
     and_then (on_flag (flag_state I2C_IF_MSTOP) i2c_mstop_interrupt s) (\<lambda>s.
     on_flag (flag_state I2C_IF_RXDATAV) i2c_rxdatav_interrupt s))))"

text \<open>One interrupt: the handler runs with this flag alone.\<close>

definition i2c_interrupt :: "i2c_flag \<Rightarrow> i2c_system \<Rightarrow> halt + i2c_system" where
  "i2c_interrupt f s = I2C_IRQHandler (\<lambda>g. g = f) s"

text \<open>The hardware puts a received byte into \<^verbatim>\<open>RXDATA\<close> before it raises \<^verbatim>\<open>RXDATAV\<close>.\<close>

definition i2c_receive :: "32 word \<Rightarrow> i2c_system \<Rightarrow> halt + i2c_system" where
  "i2c_receive byte s = i2c_interrupt I2C_IF_RXDATAV (s\<lparr>i2c := (i2c s)\<lparr>RXDATA := byte\<rparr>\<rparr>)"

section \<open>Transmit state machine (leuart.c)\<close>

text \<open>
  \<^verbatim>\<open>leuart.h\<close> is not among the sources. The members of \<^verbatim>\<open>LEUART_STATES\<close> are the
  case labels of the two handlers. \<^verbatim>\<open>LEUART_TX_EM\<close>, the energy mode held during a
  transmission, is a macro of that header: the functions that use it take it as the
  parameter \<open>tx_em\<close>.
\<close>

datatype LEUART_STATES = idle | send_data | active_trans | end_comm

text \<open>
  The part of \<^verbatim>\<open>LEUART_TypeDef\<close> the driver touches: the \<^verbatim>\<open>TXIDLE\<close> bit of
  \<^verbatim>\<open>STATUS\<close>, the \<^verbatim>\<open>TXBL\<close> and \<^verbatim>\<open>TXC\<close> bits of \<^verbatim>\<open>IEN\<close>, the bytes written to
  \<^verbatim>\<open>TXDATA\<close> (oldest first), and whether \<^verbatim>\<open>LEUART_IFS_TXC\<close> was written to \<^verbatim>\<open>IFS\<close>.
\<close>

record LEUART_TypeDef =
  STATUS_TXIDLE :: bool
  IEN_TXBL :: bool
  IEN_TXC :: bool
  TXDATA_bytes :: "8 word list"
  IFS_TXC :: bool

text \<open>\<^verbatim>\<open>LEUART_SM\<close>; \<open>output'\<close> is \<^verbatim>\<open>char output[80]\<close>.\<close>

record LEUART_SM =
  sm_busy' :: bool
  str_length :: "32 word"
  state' :: LEUART_STATES
  output' :: "8 word list"
  count' :: "32 word"

record leuart_system = kernel +
  sm :: LEUART_SM
  leuart :: LEUART_TypeDef
  tx_done_evt :: events

text \<open>
  \<^verbatim>\<open>strcpy(dst, src)\<close> for a C string whose characters before the terminator are \<open>src\<close>:
  the characters, then the terminator; the rest of \<open>dst\<close> keeps its contents.
\<close>

definition strcpy :: "8 word list \<Rightarrow> 8 word list \<Rightarrow> 8 word list" where
  "strcpy dst src = src @ [0] @ drop (length src + 1) dst"

text \<open>
  \<^verbatim>\<open>leuart_start\<close>. The busy-wait on \<^verbatim>\<open>TXIDLE\<close> falls through when the bit is set.
  \<^verbatim>\<open>strcpy\<close> writes \<open>length string + 1\<close> characters into the 80 of \<^verbatim>\<open>sm.output\<close>.
\<close>

definition leuart_start :: "nat \<Rightarrow> 8 word list \<Rightarrow> 32 word \<Rightarrow> leuart_system \<Rightarrow> halt + leuart_system" where
  "leuart_start tx_em string string_len s =
     (if \<not> STATUS_TXIDLE (leuart s) then Inl NoReturn
      else and_then (k_sleep_block_mode tx_em s) (\<lambda>s1.
        if \<not> length string + 1 \<le> length (output' (sm s1)) then Inl OutOfBounds
        else Inr (s1\<lparr>sm := (sm s1)\<lparr>state' := idle, count' := 0,
                                   output' := strcpy (output' (sm s1)) string,
                                   str_length := string_len, sm_busy' := True\<rparr>,
                      leuart := (leuart s1)\<lparr>IEN_TXBL := True, IEN_TXC := False\<rparr>\<rparr>)))"

text \<open>
  \<^verbatim>\<open>sm.leuart->TXDATA = sm.output[sm.count]; sm.count++;\<close>, the two statements every
  sending branch starts with.
\<close>

definition send_next :: "leuart_system \<Rightarrow> halt + leuart_system" where
  "send_next s =
     (if \<not> unat (count' (sm s)) < length (output' (sm s)) then Inl OutOfBounds
      else Inr (s\<lparr>leuart := (leuart s)\<lparr>TXDATA_bytes :=
                        TXDATA_bytes (leuart s) @ [output' (sm s) ! unat (count' (sm s))]\<rparr>,
                    sm := (sm s)\<lparr>count' := count' (sm s) + 1\<rparr>\<rparr>))"

definition leuart0_txbl_interrupt :: "leuart_system \<Rightarrow> halt + leuart_system" where
  "leuart0_txbl_interrupt s =
     (case state' (sm s) of
        idle \<Rightarrow> and_then (send_next s) (\<lambda>s1. Inr (s1\<lparr>sm := (sm s1)\<lparr>state' := send_data\<rparr>\<rparr>))
      | send_data \<Rightarrow>
          if count' (sm s) = str_length (sm s) - 1
          then and_then (send_next s) (\<lambda>s1.
                 Inr (s1\<lparr>leuart := (leuart s1)\<lparr>IEN_TXBL := False, IEN_TXC := True\<rparr>,
                          sm := (sm s1)\<lparr>state' := active_trans\<rparr>\<rparr>))
          else and_then (send_next s) (\<lambda>s1. Inr (s1\<lparr>sm := (sm s1)\<lparr>state' := send_data\<rparr>\<rparr>))
      | active_trans \<Rightarrow> Inl AssertFailed
      | end_comm \<Rightarrow> Inl AssertFailed)"

definition leuart0_txc_interrupt :: "nat \<Rightarrow> leuart_system \<Rightarrow> halt + leuart_system" where
  "leuart0_txc_interrupt tx_em s =
     (case state' (sm s) of
        idle \<Rightarrow> Inl AssertFailed
      | send_data \<Rightarrow> Inl AssertFailed
      | active_trans \<Rightarrow>
          Inr (s\<lparr>sm := (sm s)\<lparr>state' := end_comm\<rparr>, leuart := (leuart s)\<lparr>IFS_TXC := True\<rparr>\<rparr>)
      | end_comm \<Rightarrow>
          and_then (k_sleep_unblock_mode tx_em
                      (s\<lparr>leuart := (leuart s)\<lparr>IEN_TXC := False\<rparr>,
                         sm := (sm s)\<lparr>sm_busy' := False\<rparr>\<rparr>)) (\<lambda>s1.
            Inr (k_add_scheduled_event (tx_done_evt s1) s1)))"

text \<open>
  \<^verbatim>\<open>LEUART0_IRQHandler\<close>: \<^verbatim>\<open>interrupt_flags = IF & IEN\<close> is read once, on entry; \<open>IF\<close>
  tells which flags the hardware has raised.
\<close>

datatype leuart_flag = LEUART_IF_TXBL | LEUART_IF_TXC

definition LEUART0_IRQHandler :: "nat \<Rightarrow> (leuart_flag \<Rightarrow> bool) \<Rightarrow> leuart_system \<Rightarrow> halt + leuart_system" where
  "LEUART0_IRQHandler tx_em IF s =
     (let txbl = (IF LEUART_IF_TXBL \<and> IEN_TXBL (leuart s));
          txc = (IF LEUART_IF_TXC \<and> IEN_TXC (leuart s))
      in and_then (on_flag txbl leuart0_txbl_interrupt s) (\<lambda>s1.
           on_flag txc (leuart0_txc_interrupt tx_em) s1))"

text \<open>
  The interrupts that follow a drain request: as long as the driver leaves one of the
  two interrupts enabled, the hardware raises it and the handler runs. \<open>n\<close> bounds
  the number of interrupts served.
\<close>

fun leuart_drain :: "nat \<Rightarrow> nat \<Rightarrow> leuart_system \<Rightarrow> halt + leuart_system" where
  "leuart_drain tx_em 0 s = Inr s"
| "leuart_drain tx_em (Suc n) s =
     (if IEN_TXBL (leuart s) \<or> IEN_TXC (leuart s)
      then and_then (LEUART0_IRQHandler tx_em (\<lambda>f. True) s) (leuart_drain tx_em n)
      else Inr s)"

section \<open>Ring buffer (ble.c)\<close>

text \<open>
  \<^verbatim>\<open>ble.h\<close> is not among the sources: the capacity \<^verbatim>\<open>CSIZE\<close> is a parameter of
  \<^verbatim>\<open>ble_circ_init\<close>, and the members of \<^verbatim>\<open>BLE_CIRCULAR_BUF\<close> are those \<^verbatim>\<open>ble.c\<close> uses.
  Characters are bytes, read as unsigned as on the target. Cursors and sizes are
  natural numbers: the sums the code forms stay far below \<open>2 ^ 32\<close>.
\<close>

record BLE_CIRCULAR_BUF =
  cbuf :: "8 word list"
  size_mask :: nat
  size_cb :: nat
  read_ptr :: nat
  write_ptr :: nat

definition ble_circ_init :: "nat \<Rightarrow> BLE_CIRCULAR_BUF \<Rightarrow> BLE_CIRCULAR_BUF" where
  "ble_circ_init CSIZE cb = cb\<lparr>size_cb := CSIZE, size_mask := CSIZE - 1, read_ptr := 0, write_ptr := 0\<rparr>"

text \<open>
  \<^verbatim>\<open>ble_circ_space\<close> returns \<^verbatim>\<open>uint8_t\<close>: the value of either branch is cut to 8 bits.
\<close>

definition ble_circ_space :: "BLE_CIRCULAR_BUF \<Rightarrow> nat" where
  "ble_circ_space cb =
     (if write_ptr cb \<ge> read_ptr cb
      then nat ((int (size_cb cb) - \<bar>int (write_ptr cb) - int (read_ptr cb)\<bar>) mod 256)
      else nat ((int (read_ptr cb) - int (write_ptr cb)) mod 256))"

definition update_circ_wrtindex :: "BLE_CIRCULAR_BUF \<Rightarrow> nat \<Rightarrow> BLE_CIRCULAR_BUF" where
  "update_circ_wrtindex index_struct update_by =
     index_struct\<lparr>write_ptr := (write_ptr index_struct + update_by) AND size_mask index_struct\<rparr>"

definition update_circ_readindex :: "BLE_CIRCULAR_BUF \<Rightarrow> nat \<Rightarrow> BLE_CIRCULAR_BUF" where
  "update_circ_readindex index_struct update_by =
     index_struct\<lparr>read_ptr := (read_ptr index_struct + update_by) AND size_mask index_struct\<rparr>"

text \<open>
  \<^verbatim>\<open>ble_circ_push(string)\<close>, for a C string whose characters before the terminator are
  \<open>string\<close>. Every masked index is at most \<open>size_mask\<close>, so the array accesses are
  inside the array when \<open>write_ptr\<close> and \<open>size_mask\<close> are.
\<close>

definition ble_circ_push :: "8 word list \<Rightarrow> BLE_CIRCULAR_BUF \<Rightarrow> halt + BLE_CIRCULAR_BUF" where
  "ble_circ_push string cb =
     (let string_len = length string + 1
      in if ble_circ_space cb < string_len then Inl AssertFailed
         else if \<not> (write_ptr cb < length (cbuf cb) \<and> size_mask cb < length (cbuf cb))
         then Inl OutOfBounds
         else Inr (update_circ_wrtindex
                (cb\<lparr>cbuf := foldl (\<lambda>buf i. buf[(write_ptr cb + i + 1) AND size_mask cb := string ! i])
                                ((cbuf cb)[write_ptr cb := of_nat string_len])
                                [0 ..< string_len - 1]\<rparr>)
                string_len))"

text \<open>
  \<^verbatim>\<open>ble_circ_pop(test)\<close>. \<^verbatim>\<open>leuart_tx_busy\<close> belongs to a version of the LEUART driver
  that is not among the sources: its answer is the parameter \<open>tx_busy\<close>, and the call
  of \<^verbatim>\<open>leuart_start\<close> is returned with its arguments. With \<open>test\<close> the popped bytes go
  to \<^verbatim>\<open>test_struct.result_str\<close>, cleared over \<open>size\<close> characters first.
\<close>

datatype pop_effect =
  Nothing_delivered
| Leuart_start "8 word list" nat
| Result_str "8 word list"

definition ble_circ_pop :: "bool \<Rightarrow> bool \<Rightarrow> BLE_CIRCULAR_BUF \<Rightarrow> halt + (bool \<times> pop_effect \<times> BLE_CIRCULAR_BUF)" where
  "ble_circ_pop tx_busy test cb =
     (if tx_busy then Inr (True, Nothing_delivered, cb)
      else if read_ptr cb = write_ptr cb then Inr (True, Nothing_delivered, cb)
      else if \<not> (read_ptr cb < length (cbuf cb) \<and> size_mask cb < length (cbuf cb))
      then Inl OutOfBounds
      else let str_length = unat (cbuf cb ! read_ptr cb)
           in if str_length = 0 then Inl OutOfBounds
              else let print_str = map (\<lambda>i. cbuf cb ! ((read_ptr cb + i + 1) AND size_mask cb))
                                       [0 ..< str_length - 1]
                   in Inr (False,
                           (if test
                            then Result_str (print_str @ replicate (size_cb cb - length print_str) 0)
                            else Leuart_start print_str (str_length - 1)),
                           update_circ_readindex cb str_length))"

text \<open>Pushing one message after the other, stopped by the first halt.\<close>

fun push_all :: "8 word list list \<Rightarrow> BLE_CIRCULAR_BUF \<Rightarrow> halt + BLE_CIRCULAR_BUF" where
  "push_all [] cb = Inr cb"
| "push_all (m # ms) cb = and_then (ble_circ_push m cb) (push_all ms)"

text \<open>The encoded size of a message: its payload and the length byte.\<close>

definition encoded_size :: "8 word list \<Rightarrow> nat" where
  "encoded_size m = length m + 1"

definition total_encoded_size :: "8 word list list \<Rightarrow> nat" where
  "total_encoded_size ms = sum_list (map encoded_size ms)"

text \<open>
  The bytes \<^verbatim>\<open>ble_circ_push\<close> writes for a message, in the order of the indices it
  writes them to: \<^verbatim>\<open>(char)(string_len)\<close>, then the characters of the string. A
  sequence of messages is written one after the other.
\<close>

definition encode_message :: "8 word list \<Rightarrow> 8 word list" where
  "encode_message m = of_nat (length m + 1) # m"

definition encode_messages :: "8 word list list \<Rightarrow> 8 word list" where
  "encode_messages ms = concat (map encode_message ms)"

section \<open>Transition tables and example states\<close>





text \<open>
  The simulated read of the specification: \<^verbatim>\<open>i2c_start\<close>, three acknowledges, the
  two data bytes \<open>hi\<close> and \<open>lo\<close>, and the stop condition.
\<close>

definition read_sequence ::
  "32 word \<Rightarrow> 32 word \<Rightarrow> 32 word \<Rightarrow> 32 word \<Rightarrow> 32 word \<Rightarrow> i2c_system \<Rightarrow> halt + i2c_system" where
  "read_sequence addr cmd callback hi lo s =
     and_then (i2c_start addr cmd callback s) (\<lambda>s.
     and_then (i2c_interrupt I2C_IF_ACK s) (\<lambda>s.
     and_then (i2c_interrupt I2C_IF_ACK s) (\<lambda>s.
     and_then (i2c_interrupt I2C_IF_ACK s) (\<lambda>s.
     and_then (i2c_receive hi s) (\<lambda>s.
     and_then (i2c_receive lo s) (\<lambda>s.
     i2c_interrupt I2C_IF_MSTOP s))))))"

text \<open>
  A system between two transactions: no hold, no event pending, the bus idle, the
  state machine not busy and in \<open>stop_comm\<close>, where the last transaction left it.
\<close>

definition i2c_at_rest :: i2c_system where
  "i2c_at_rest =
     \<lparr>lowest_energy_mode = [0, 0, 0, 0, 0], event_scheduled = 0, calls = [],
      i2c_peripheral_state =
        \<lparr>state = stop_comm, device_address = 0x40, command = 0xF3, sm_busy = False, read = True\<rparr>,
      scheduled_read_cb = 0x8,
      i2c = \<lparr>bus_idle = True, RXDATA = 0, written = []\<rparr>,
      read_cell = 0\<rparr>"

text \<open>
  The same system in the middle of a read (the state machine is busy, in
  \<open>read_ms_byte\<close>, and holds EM2) while the hardware reports the bus idle.
\<close>

definition i2c_mid_read :: i2c_system where
  "i2c_mid_read =
     \<lparr>lowest_energy_mode = [0, 0, 1, 0, 0], event_scheduled = 0, calls = [Sleep_block 2],
      i2c_peripheral_state =
        \<lparr>state = read_ms_byte, device_address = 0x40, command = 0xF3, sm_busy = True, read = True\<rparr>,
      scheduled_read_cb = 0x8,
      i2c = \<lparr>bus_idle = True, RXDATA = 0, written = []\<rparr>,
      read_cell = 0\<rparr>"

text \<open>
  A transmitter at rest: nothing held, nothing enabled, the transmit line idle, the
  80 characters of \<^verbatim>\<open>sm.output\<close> zero.
\<close>

definition leuart_at_rest :: leuart_system where
  "leuart_at_rest =
     \<lparr>lowest_energy_mode = [0, 0, 0, 0, 0], event_scheduled = 0, calls = [],
      sm = \<lparr>sm_busy' = False, str_length = 0, state' = idle,
             output' = replicate 80 0, count' = 0\<rparr>,
      leuart = \<lparr>STATUS_TXIDLE = True, IEN_TXBL = False, IEN_TXC = False,
                 TXDATA_bytes = [], IFS_TXC = False\<rparr>,
      tx_done_evt = 0x10\<rparr>"

text \<open>
  A drain request for the one-character string \<^verbatim>\<open>"A"\<close> on the transmitter at rest,
  holding EM3, followed by at most \<open>n\<close> interrupts.
\<close>

definition one_byte_drain :: "nat \<Rightarrow> halt + leuart_system" where
  "one_byte_drain n = and_then (leuart_start EM3 [0x41] 1 leuart_at_rest) (leuart_drain EM3 n)"

text \<open>
  A ring buffer as \<^verbatim>\<open>ble_circ_init\<close> and the accesses through the mask keep it: the
  capacity is \<open>2 ^ k\<close>, the mask is one less, the array has that many characters and
  both cursors are inside it.
\<close>

definition ring_ok :: "nat \<Rightarrow> BLE_CIRCULAR_BUF \<Rightarrow> bool" where
  "ring_ok k cb \<longleftrightarrow>
     size_cb cb = 2 ^ k \<and> size_mask cb = 2 ^ k - 1 \<and> length (cbuf cb) = 2 ^ k \<and>
     read_ptr cb < 2 ^ k \<and> write_ptr cb < 2 ^ k"

text \<open>
  The buffer of capacity 64 right after \<^verbatim>\<open>ble_circ_init\<close>, and a message of 63
  characters, none of them zero: with its length byte it takes the whole capacity.
\<close>

definition ring64 :: BLE_CIRCULAR_BUF where
  "ring64 = ble_circ_init 64
     \<lparr>cbuf = replicate 64 0, size_mask = 0, size_cb = 0, read_ptr = 0, write_ptr = 0\<rparr>"

definition msg63 :: "8 word list" where
  "msg63 = map of_nat [1 ..< 64]"

section \<open>Properties of the sleep arbiter\<close>

lemma sleep_open_zero: "sleep_open em = replicate (length em) 0"
  by (induction em) (auto simp: sleep_open_def)

lemma block_scan_found:
  "i \<le> MAX_ENERGY_MODES \<Longrightarrow> \<exists>j. i \<le> j \<and> j < MAX_ENERGY_MODES \<and> em ! j \<noteq> 0 \<Longrightarrow>
   block_scan i em < MAX_ENERGY_MODES \<and> i \<le> block_scan i em \<and> em ! block_scan i em \<noteq> 0 \<and>
   (\<forall>j. i \<le> j \<and> j < block_scan i em \<longrightarrow> em ! j = 0)"
proof (induction i em rule: block_scan.induct)
  case (1 i em)
  show ?case
  proof (cases "em ! i \<noteq> 0")
    case True
    from "1.prems" obtain j where "i \<le> j" "j < MAX_ENERGY_MODES" by blast
    then have "i < MAX_ENERGY_MODES" by simp
    with True have "block_scan i em = i" by (subst block_scan.simps) simp
    with True \<open>i < MAX_ENERGY_MODES\<close> show ?thesis by simp
  next
    case False
    from "1.prems" obtain j where j: "i \<le> j" "j < MAX_ENERGY_MODES" "em ! j \<noteq> 0" by blast
    with False have "i < j" by (cases "i = j") auto
    with j have lt: "i < MAX_ENERGY_MODES" by simp
    from \<open>i < j\<close> j have "i + 1 \<le> j \<and> j < MAX_ENERGY_MODES \<and> em ! j \<noteq> 0" by simp
    then have ex: "\<exists>j. i + 1 \<le> j \<and> j < MAX_ENERGY_MODES \<and> em ! j \<noteq> 0" ..
    from lt have le: "i + 1 \<le> MAX_ENERGY_MODES" by simp
    have eq: "block_scan i em = block_scan (i + 1) em"
      using lt False by (subst block_scan.simps) simp
    from "1.IH"[OF lt _ le ex] False
    have IH: "block_scan (i + 1) em < MAX_ENERGY_MODES \<and> i + 1 \<le> block_scan (i + 1) em \<and>
        em ! block_scan (i + 1) em \<noteq> 0 \<and>
        (\<forall>j. i + 1 \<le> j \<and> j < block_scan (i + 1) em \<longrightarrow> em ! j = 0)"
      by simp
    have "em ! j = 0" if "i \<le> j \<and> j < block_scan (i + 1) em" for j
    proof (cases "j = i")
      case True
      with False show ?thesis by simp
    next
      case False
      with that have "i + 1 \<le> j \<and> j < block_scan (i + 1) em" by simp
      with IH show ?thesis by blast
    qed
    with IH show ?thesis unfolding eq by simp
  qed
qed

lemma block_scan_none:
  "\<forall>j. i \<le> j \<and> j < MAX_ENERGY_MODES \<longrightarrow> em ! j = 0 \<Longrightarrow>
   block_scan i em = MAX_ENERGY_MODES - 1"
proof (induction i em rule: block_scan.induct)
  case (1 i em)
  show ?case
  proof (cases "i < MAX_ENERGY_MODES")
    case True
    with "1.prems" have z: "em ! i = 0" by simp
    have "block_scan i em = block_scan (i + 1) em"
      using True z by (subst block_scan.simps) simp
    also have "\<dots> = MAX_ENERGY_MODES - 1"
      using "1.IH"[OF True] z "1.prems" by simp
    finally show ?thesis .
  next
    case False
    then show ?thesis by (subst block_scan.simps) simp
  qed
qed

lemma current_block_energy_mode_first:
  "(current_block_energy_mode em < MAX_ENERGY_MODES \<and>
      em ! current_block_energy_mode em \<noteq> 0 \<and>
      (\<forall>j < current_block_energy_mode em. em ! j = 0))
   \<or> ((\<forall>j < MAX_ENERGY_MODES. em ! j = 0) \<and>
       current_block_energy_mode em = MAX_ENERGY_MODES - 1)"
proof (cases "\<exists>j. 0 \<le> j \<and> j < MAX_ENERGY_MODES \<and> em ! j \<noteq> 0")
  case True
  from block_scan_found[OF _ True] show ?thesis
    by (simp add: current_block_energy_mode_def)
next
  case False
  then have z: "\<forall>j. 0 \<le> j \<and> j < MAX_ENERGY_MODES \<longrightarrow> em ! j = 0" by blast
  from block_scan_none[OF z] z show ?thesis
    by (simp add: current_block_energy_mode_def)
qed

lemma sleep_step_keeps:
  assumes "sleep_step c em = Inr em'"
  shows "length em' = length em"
    and "(\<forall>x \<in> set em. 0 \<le> x) \<Longrightarrow> (\<forall>x \<in> set em'. 0 \<le> x)"
proof -
  show "length em' = length em"
    using assms
    by (cases c) (auto simp: sleep_block_mode_def sleep_unblock_mode_def Let_def split: if_splits)
next
  assume nn: "\<forall>x \<in> set em. 0 \<le> x"
  show "\<forall>x \<in> set em'. 0 \<le> x"
  proof (cases c)
    case (Block m)
    with assms have m: "m < length em" and em': "em' = em[m := em ! m + 1]"
      by (auto simp: sleep_block_mode_def Let_def split: if_splits)
    from nn m have "0 \<le> em ! m + 1" by (simp add: add_nonneg_nonneg)
    with nn show ?thesis unfolding em' by (auto dest!: set_update_subset_insert[THEN subsetD])
  next
    case (Unblock m)
    with assms have m: "m < length em" and em': "em' = em[m := em ! m - 1]"
      and ge: "0 \<le> em' ! m"
      by (auto simp: sleep_unblock_mode_def Let_def split: if_splits)
    from ge m have "0 \<le> em ! m - 1" unfolding em' by simp
    with nn show ?thesis unfolding em' by (auto dest!: set_update_subset_insert[THEN subsetD])
  qed
qed

lemma sleep_run_keeps:
  "sleep_run cs em = Inr em' \<Longrightarrow> \<forall>x \<in> set em. 0 \<le> x \<Longrightarrow>
   length em' = length em \<and> (\<forall>x \<in> set em'. 0 \<le> x)"
proof (induction cs arbitrary: em)
  case Nil
  then show ?case by simp
next
  case (Cons c cs)
  from Cons.prems(1) obtain em1 where step: "sleep_step c em = Inr em1"
    and rest: "sleep_run cs em1 = Inr em'"
    by (auto split: sum.splits)
  from sleep_step_keeps[OF step] Cons.prems(2)
  have "length em1 = length em" and "\<forall>x \<in> set em1. 0 \<le> x" by auto
  with Cons.IH[OF rest] show ?case by simp
qed

text \<open>
  C8. Take any sequence of \<^verbatim>\<open>sleep_block_mode\<close> and \<^verbatim>\<open>sleep_unblock_mode\<close> calls that runs
  without a failed assertion from a table of non-negative counters. The counters
  are still non-negative, and \<^verbatim>\<open>current_block_energy_mode\<close> returns the lowest-numbered
  mode whose counter is nonzero, or \<^verbatim>\<open>MAX_ENERGY_MODES - 1\<close> when every counter is zero.
\<close>

theorem current_block_energy_mode_after_calls:
  assumes "length em0 = MAX_ENERGY_MODES"
    and "\<forall>x \<in> set em0. 0 \<le> x"
    and "sleep_run cs em0 = Inr em"
  shows "length em = MAX_ENERGY_MODES \<and> (\<forall>x \<in> set em. 0 \<le> x) \<and>
    ((current_block_energy_mode em < MAX_ENERGY_MODES \<and>
        em ! current_block_energy_mode em \<noteq> 0 \<and>
        (\<forall>j < current_block_energy_mode em. em ! j = 0))
     \<or> ((\<forall>j < MAX_ENERGY_MODES. em ! j = 0) \<and>
         current_block_energy_mode em = MAX_ENERGY_MODES - 1))"
  using sleep_run_keeps[OF assms(3) assms(2)] assms(1) current_block_energy_mode_first[of em]
  by simp

theorem current_block_energy_mode_after_calls_witness:
  "length (sleep_open [7, 0, 3, 0, 0]) = MAX_ENERGY_MODES \<and>
   sleep_run [Block EM2, Block EM3, Unblock EM2] (sleep_open [7, 0, 3, 0, 0]) = Inr [0, 0, 0, 1, 0] \<and>
   current_block_energy_mode [0, 0, 0, 1, 0] = EM3 \<and>
   sleep_run [] (sleep_open [7, 0, 3, 0, 0]) = Inr [0, 0, 0, 0, 0] \<and>
   current_block_energy_mode [0, 0, 0, 0, 0] = MAX_ENERGY_MODES - 1"
proof -
  have l: "length (sleep_open [7, 0, 3, 0, 0]) = MAX_ENERGY_MODES"
    by (simp add: sleep_open_def MAX_ENERGY_MODES_def)
  have nn: "\<forall>x \<in> set (sleep_open [7, 0, 3, 0, 0]). 0 \<le> x"
    by (simp add: sleep_open_def)
  have r1: "sleep_run [Block EM2, Block EM3, Unblock EM2] (sleep_open [7, 0, 3, 0, 0]) = Inr [0, 0, 0, 1, 0]"
    by (simp add: sleep_open_def sleep_block_mode_def sleep_unblock_mode_def EM2_def EM3_def)
  have r2: "sleep_run [] (sleep_open [7, 0, 3, 0, 0]) = Inr [0, 0, 0, 0, 0]"
    by (simp add: sleep_open_def)
  from current_block_energy_mode_after_calls[OF l nn r1]
  have "current_block_energy_mode [0, 0, 0, 1, 0] = EM3"
    by (auto simp: MAX_ENERGY_MODES_def EM3_def less_Suc_eq numeral_nat nth_Cons')
  moreover from current_block_energy_mode_after_calls[OF l nn r2]
  have "current_block_energy_mode [0, 0, 0, 0, 0] = MAX_ENERGY_MODES - 1"
    by (auto simp: MAX_ENERGY_MODES_def less_Suc_eq numeral_nat nth_Cons')
  ultimately show ?thesis using l r1 r2 by simp
qed

section \<open>Properties of the event scheduler\<close>

text \<open>
  C9. For every event mask \<open>e\<close> and every prior value \<open>s\<close> of the event bit field:
  after \<^verbatim>\<open>add_scheduled_event(e)\<close>, \<^verbatim>\<open>get_scheduled_events()\<close> has every bit of \<open>e\<close> set;
  after \<^verbatim>\<open>remove_scheduled_event(e)\<close> it has every bit of \<open>e\<close> clear; adding \<open>e\<close>
  twice is the same as adding it once; and both operations leave the bits outside
  \<open>e\<close> as they were.
\<close>

theorem scheduler_post_clear_pending:
  "get_scheduled_events (add_scheduled_event e s) AND e = e \<and>
   get_scheduled_events (remove_scheduled_event e s) AND e = 0 \<and>
   add_scheduled_event e (add_scheduled_event e s) = add_scheduled_event e s \<and>
   get_scheduled_events (add_scheduled_event e s) AND NOT e = s AND NOT e \<and>
   get_scheduled_events (remove_scheduled_event e s) AND NOT e = s AND NOT e"
  by (auto simp: get_scheduled_events_def add_scheduled_event_def remove_scheduled_event_def
      bit_eq_iff bit_simps)

section \<open>What enter_sleep enters\<close>

lemma current_block_energy_mode_unrolled:
  "current_block_energy_mode em =
     (if em ! 0 \<noteq> 0 then 0 else if em ! 1 \<noteq> 0 then 1 else if em ! 2 \<noteq> 0 then 2
      else if em ! 3 \<noteq> 0 then 3 else 4)"
  unfolding current_block_energy_mode_def
  apply (subst block_scan.simps)
  apply (subst block_scan.simps)
  apply (subst block_scan.simps)
  apply (subst block_scan.simps)
  apply (subst block_scan.simps)
  apply (subst block_scan.simps)
  apply (simp add: MAX_ENERGY_MODES_def eval_nat_numeral)
  done

text \<open>
  C4 says that \<^verbatim>\<open>enter_sleep\<close> enters the mode \<^verbatim>\<open>current_block_energy_mode\<close>
  returns. It does not. With every counter zero the scan returns EM4
  and \<^verbatim>\<open>enter_sleep\<close> calls \<^verbatim>\<open>EMU_EnterEM3\<close>; with a hold on EM2 alone the scan returns
  EM2 and \<^verbatim>\<open>enter_sleep\<close> calls \<^verbatim>\<open>EMU_EnterEM1\<close>.
\<close>

theorem enter_sleep_mode_counterexample:
  "current_block_energy_mode [0, 0, 0, 0, 0] = EM4 \<and>
   enter_sleep [0, 0, 0, 0, 0] = Some (EMU_EnterEM3 True) \<and>
   mode_entered (enter_sleep [0, 0, 0, 0, 0]) = EM3 \<and>
   current_block_energy_mode [0, 0, 1, 0, 0] = EM2 \<and>
   enter_sleep [0, 0, 1, 0, 0] = Some EMU_EnterEM1 \<and>
   mode_entered (enter_sleep [0, 0, 1, 0, 0]) = EM1"
  by (simp add: current_block_energy_mode_unrolled enter_sleep_def
      EM0_def EM1_def EM2_def EM3_def EM4_def)

text \<open>
  C4, amended. A held mode is a mode the processor must not enter. For every table
  of non-negative counters, \<^verbatim>\<open>enter_sleep\<close> enters the mode one step shallower than
  the one \<^verbatim>\<open>current_block_energy_mode\<close> returns: it stays in EM0 (no entry primitive
  is called) when that is EM0 or EM1, enters EM1 when it is EM2, EM2 when it is EM3,
  and EM3 when it is EM4, which is also the answer when no counter is held.
\<close>

theorem enter_sleep_one_above_blocked:
  assumes "length em = MAX_ENERGY_MODES" and "\<forall>x \<in> set em. 0 \<le> x"
  shows "mode_entered (enter_sleep em) = current_block_energy_mode em - 1"
proof -
  have nn: "0 \<le> em ! i" if "i < 5" for i
    using assms that by (simp add: MAX_ENERGY_MODES_def)
  from nn[of 0] nn[of 1] nn[of 2] nn[of 3]
  show ?thesis
    by (simp add: enter_sleep_def current_block_energy_mode_unrolled EM0_def EM1_def EM2_def EM3_def)
qed

theorem enter_sleep_one_above_blocked_witness:
  "length [0, 0, 2, 1, 0 :: int] = MAX_ENERGY_MODES \<and>
   mode_entered (enter_sleep [0, 0, 2, 1, 0]) = current_block_energy_mode [0, 0, 2, 1, 0] - 1 \<and>
   current_block_energy_mode [0, 0, 2, 1, 0] = EM2 \<and>
   enter_sleep [0, 0, 2, 1, 0] = Some EMU_EnterEM1"
  using enter_sleep_one_above_blocked[of "[0, 0, 2, 1, 0]"]
  by (simp add: MAX_ENERGY_MODES_def current_block_energy_mode_unrolled enter_sleep_def
      EM0_def EM1_def EM2_def EM3_def)

section \<open>Properties of the bus transaction state machine\<close>

lemma and_then_simps [simp]:
  "and_then (Inr x) f = f x"
  "and_then (Inl h) f = Inl h"
  "and_then r Inr = r"
  by (simp_all add: and_then_def split: sum.split)

lemma i2c_interrupt_simps:
  "i2c_interrupt I2C_IF_START s = i2c_start_interrupt s"
  "i2c_interrupt I2C_IF_ACK s = i2c_ack_interrupt s"
  "i2c_interrupt I2C_IF_NACK s = i2c_nack_interrupt s"
  "i2c_interrupt I2C_IF_MSTOP s = i2c_mstop_interrupt s"
  "i2c_interrupt I2C_IF_RXDATAV s = i2c_rxdatav_interrupt s"
  by (simp_all add: i2c_interrupt_def I2C_IRQHandler_def on_flag_def)

text \<open>
  C1. Let the hardware report the bus idle and let the EM2 counter have room for one
  more hold. Then \<^verbatim>\<open>i2c_start\<close> followed by an acknowledge in \<open>start_comm\<close>, an
  acknowledge in \<open>send_cmd\<close>, an acknowledge in \<open>read_request\<close>, a data byte in
  \<open>read_ms_byte\<close>, a data byte in \<open>read_ls_byte\<close> and the stop condition in
  \<open>stop_comm\<close> runs without a failed assertion and ends with the state machine not
  busy. The hold on EM2 taken by \<^verbatim>\<open>i2c_start\<close> is still held when the stop condition
  arrives and is released once, by its handler; the completion event is posted once,
  by the same handler: the calls into the arbiter and the scheduler are exactly one
  \<^verbatim>\<open>sleep_block_mode(EM2)\<close>, one \<^verbatim>\<open>sleep_unblock_mode(EM2)\<close> and one
  \<^verbatim>\<open>add_scheduled_event(callback)\<close>. \<^verbatim>\<open>DEFINED_STATES\<close> has no idle member: the
  machine is marked idle by \<^verbatim>\<open>sm_busy = false\<close>, and \<^verbatim>\<open>state\<close> stays \<open>stop_comm\<close>.
\<close>

theorem read_sequence_completes:
  assumes idle: "bus_idle (i2c s)"
    and len: "length (lowest_energy_mode s) = MAX_ENERGY_MODES"
    and held: "0 \<le> lowest_energy_mode s ! EM2"
    and room: "lowest_energy_mode s ! EM2 < 4"
  shows "\<exists>s1 s2 s3 s4 s5 s6 s7.
     i2c_start addr cmd callback s = Inr s1 \<and> state (i2c_peripheral_state s1) = start_comm \<and>
     i2c_interrupt I2C_IF_ACK s1 = Inr s2 \<and> state (i2c_peripheral_state s2) = send_cmd \<and>
     i2c_interrupt I2C_IF_ACK s2 = Inr s3 \<and> state (i2c_peripheral_state s3) = read_request \<and>
     i2c_interrupt I2C_IF_ACK s3 = Inr s4 \<and> state (i2c_peripheral_state s4) = read_ms_byte \<and>
     i2c_receive hi s4 = Inr s5 \<and> state (i2c_peripheral_state s5) = read_ls_byte \<and>
     i2c_receive lo s5 = Inr s6 \<and> state (i2c_peripheral_state s6) = stop_comm \<and>
     calls s6 = calls s @ [Sleep_block EM2] \<and>
     lowest_energy_mode s6 = (lowest_energy_mode s)[EM2 := lowest_energy_mode s ! EM2 + 1] \<and>
     event_scheduled s6 = event_scheduled s \<and>
     i2c_interrupt I2C_IF_MSTOP s6 = Inr s7 \<and>
     read_sequence addr cmd callback hi lo s = Inr s7 \<and>
     \<not> sm_busy (i2c_peripheral_state s7) \<and> state (i2c_peripheral_state s7) = stop_comm \<and>
     calls s7 = calls s @ [Sleep_block EM2, Sleep_unblock EM2, Add_event callback] \<and>
     lowest_energy_mode s7 = lowest_energy_mode s \<and>
     event_scheduled s7 = add_scheduled_event callback (event_scheduled s) \<and>
     read_cell s7 = push_bit 8 hi OR lo"
  using assms
  by (simp add: read_sequence_def i2c_interrupt_simps i2c_receive_def i2c_start_def
      i2c_ack_interrupt_def i2c_mstop_interrupt_def i2c_rxdatav_interrupt_def
      sm_set_def i2c_write_def
      k_sleep_block_mode_def k_sleep_unblock_mode_def k_add_scheduled_event_def
      sleep_block_mode_def sleep_unblock_mode_def MAX_ENERGY_MODES_def EM2_def Let_def)

theorem read_sequence_completes_witness:
  "bus_idle (i2c i2c_at_rest) \<and> \<not> sm_busy (i2c_peripheral_state i2c_at_rest) \<and>
   (\<exists>s'. read_sequence 0x40 0xF3 0x8 0x66 0x4C i2c_at_rest = Inr s' \<and>
      \<not> sm_busy (i2c_peripheral_state s') \<and>
      calls s' = [Sleep_block EM2, Sleep_unblock EM2, Add_event 0x8] \<and>
      lowest_energy_mode s' = [0, 0, 0, 0, 0] \<and>
      event_scheduled s' = 0x8 \<and>
      read_cell s' = 0x664C)"
proof -
  have h: "bus_idle (i2c i2c_at_rest)"
    "length (lowest_energy_mode i2c_at_rest) = MAX_ENERGY_MODES"
    "0 \<le> lowest_energy_mode i2c_at_rest ! EM2"
    "lowest_energy_mode i2c_at_rest ! EM2 < 4"
    by (simp_all add: i2c_at_rest_def MAX_ENERGY_MODES_def EM2_def)
  from read_sequence_completes[OF h, where addr = "0x40" and cmd = "0xF3" and callback = "0x8"
      and hi = "0x66" and lo = "0x4C"]
  show ?thesis
    by (auto simp: i2c_at_rest_def add_scheduled_event_def)
qed




text \<open>
  C6 says that \<^verbatim>\<open>i2c_start\<close> fails unless the hardware and the state machine are
  both idle, and the note in its doc comment asks for the same. The code does not
  do it. Here the state machine is busy in the middle of a read and the hardware
  reports the bus idle: \<^verbatim>\<open>i2c_start\<close>, which asserts on the hardware state alone,
  returns normally, takes a second hold on EM2, puts the state machine back to
  \<open>start_comm\<close> and issues a start condition.
\<close>

theorem i2c_start_while_sm_busy:
  "bus_idle (i2c i2c_mid_read) \<and> sm_busy (i2c_peripheral_state i2c_mid_read) \<and>
   state (i2c_peripheral_state i2c_mid_read) = read_ms_byte \<and>
   (\<exists>s'. i2c_start 0x40 0xF3 0x8 i2c_mid_read = Inr s' \<and>
      state (i2c_peripheral_state s') = start_comm \<and>
      written (i2c s') = [CMD I2C_CMD_START, TXDATA 0x80] \<and>
      lowest_energy_mode s' = [0, 0, 2, 0, 0])"
  by (simp add: i2c_mid_read_def i2c_start_def k_sleep_block_mode_def sleep_block_mode_def
      sm_set_def i2c_write_def address_byte_def EM2_def)

section \<open>Properties of the transmit state machine\<close>

lemma and_then_assoc: "and_then (and_then r f) g = and_then r (\<lambda>x. and_then (f x) g)"
  by (cases r) simp_all

lemma leuart_drain_stopped:
  "\<not> IEN_TXBL (leuart s) \<Longrightarrow> \<not> IEN_TXC (leuart s) \<Longrightarrow> leuart_drain tx_em n s = Inr s"
  by (cases n) simp_all

lemma leuart_drain_add:
  "leuart_drain tx_em (a + b) s = and_then (leuart_drain tx_em a s) (leuart_drain tx_em b)"
proof (induction a arbitrary: s)
  case 0
  then show ?case by simp
next
  case (Suc a)
  show ?case
  proof (cases "IEN_TXBL (leuart s) \<or> IEN_TXC (leuart s)")
    case True
    then show ?thesis
      by (cases "LEUART0_IRQHandler tx_em (\<lambda>f. True) s") (simp_all add: Suc.IH)
  next
    case False
    then show ?thesis by (simp add: leuart_drain_stopped)
  qed
qed

lemma irq_sending:
  assumes "state' (sm s) = send_data" "IEN_TXBL (leuart s)" "\<not> IEN_TXC (leuart s)"
    and "count' (sm s) \<noteq> str_length (sm s) - 1"
    and "unat (count' (sm s)) < length (output' (sm s))"
  shows "LEUART0_IRQHandler tx_em (\<lambda>f. True) s =
     Inr (s\<lparr>leuart := (leuart s)\<lparr>TXDATA_bytes :=
                TXDATA_bytes (leuart s) @ [output' (sm s) ! unat (count' (sm s))]\<rparr>,
             sm := (sm s)\<lparr>count' := count' (sm s) + 1\<rparr>\<rparr>)"
  using assms
  by (simp add: LEUART0_IRQHandler_def on_flag_def leuart0_txbl_interrupt_def send_next_def)

lemma drain_sending:
  assumes "state' (sm s) = send_data" "IEN_TXBL (leuart s)" "\<not> IEN_TXC (leuart s)"
    and "unat (count' (sm s)) = c" "length (output' (sm s)) = 80" "c + k \<le> 80"
    and "\<forall>j. c \<le> j \<and> j < c + k \<longrightarrow> j \<noteq> unat (str_length (sm s) - 1)"
  shows "leuart_drain tx_em k s =
     Inr (s\<lparr>leuart := (leuart s)\<lparr>TXDATA_bytes :=
                TXDATA_bytes (leuart s) @ take k (drop c (output' (sm s)))\<rparr>,
             sm := (sm s)\<lparr>count' := count' (sm s) + of_nat k\<rparr>\<rparr>)"
  using assms
proof (induction k arbitrary: s c)
  case 0
  then show ?case by simp
next
  case (Suc k)
  let ?s1 = "s\<lparr>leuart := (leuart s)\<lparr>TXDATA_bytes :=
                TXDATA_bytes (leuart s) @ [output' (sm s) ! unat (count' (sm s))]\<rparr>,
             sm := (sm s)\<lparr>count' := count' (sm s) + 1\<rparr>\<rparr>"
  from Suc.prems have c80: "c < 80" by simp
  from Suc.prems have "c \<noteq> unat (str_length (sm s) - 1)" by simp
  with Suc.prems(4) have ne: "count' (sm s) \<noteq> str_length (sm s) - 1" by auto
  have irq: "LEUART0_IRQHandler tx_em (\<lambda>f. True) s = Inr ?s1"
    using Suc.prems c80 ne by (intro irq_sending) simp_all
  have u1: "unat (count' (sm s) + 1) = Suc c"
    using Suc.prems(4) c80 by (simp add: unat_word_ariths)
  have IH: "leuart_drain tx_em k ?s1 =
     Inr (?s1\<lparr>leuart := (leuart ?s1)\<lparr>TXDATA_bytes :=
                TXDATA_bytes (leuart ?s1) @ take k (drop (Suc c) (output' (sm ?s1)))\<rparr>,
             sm := (sm ?s1)\<lparr>count' := count' (sm ?s1) + of_nat k\<rparr>\<rparr>)"
    using Suc.prems u1 by (intro Suc.IH) simp_all
  have tk: "take (Suc k) (drop c (output' (sm s))) =
      output' (sm s) ! c # take k (drop (Suc c) (output' (sm s)))"
    using Suc.prems(5) c80 by (simp flip: Cons_nth_drop_Suc)
  show ?case
    using Suc.prems(2) irq IH tk Suc.prems(4)
    by (simp add: add.assoc)
qed


text \<open>
  A drain request for a string of 2 to 79 characters behaves as the specification
  says: the interrupts that follow transmit exactly the characters of the string, in
  order; when the last one is written, \<^verbatim>\<open>TXBL\<close> is disabled and \<^verbatim>\<open>TXC\<close> enabled; two
  more interrupts later both are disabled, the hold is released once and the event
  \<^verbatim>\<open>tx_done_evt\<close> is posted once.
\<close>

lemma leuart_drain_completes:
  assumes idle: "STATUS_TXIDLE (leuart s)"
    and L2: "2 \<le> length string" and L80: "length string < 80"
    and out: "length (output' (sm s)) = 80"
    and em: "tx_em < length (lowest_energy_mode s)"
      "0 \<le> lowest_energy_mode s ! tx_em" "lowest_energy_mode s ! tx_em < 4"
  shows "\<exists>s1 s2 s3.
     leuart_start tx_em string (of_nat (length string)) s = Inr s1 \<and>
     leuart_drain tx_em (length string) s1 = Inr s2 \<and>
     TXDATA_bytes (leuart s2) = TXDATA_bytes (leuart s) @ string \<and>
     \<not> IEN_TXBL (leuart s2) \<and> IEN_TXC (leuart s2) \<and>
     calls s2 = calls s @ [Sleep_block tx_em] \<and>
     leuart_drain tx_em (length string + 2) s1 = Inr s3 \<and>
     TXDATA_bytes (leuart s3) = TXDATA_bytes (leuart s) @ string \<and>
     \<not> IEN_TXBL (leuart s3) \<and> \<not> IEN_TXC (leuart s3) \<and> \<not> sm_busy' (sm s3) \<and>
     calls s3 = calls s @ [Sleep_block tx_em, Sleep_unblock tx_em, Add_event (tx_done_evt s)] \<and>
     lowest_energy_mode s3 = lowest_energy_mode s \<and>
     event_scheduled s3 = add_scheduled_event (tx_done_evt s) (event_scheduled s)"
proof -
  define L where "L = length string"
  define buf where "buf = strcpy (output' (sm s)) string"
  define k1 where "k1 = s\<lparr>lowest_energy_mode := (lowest_energy_mode s)[tx_em := lowest_energy_mode s ! tx_em + 1],
                        calls := calls s @ [Sleep_block tx_em]\<rparr>"
  define s1 where "s1 = k1\<lparr>sm := (sm k1)\<lparr>state' := idle, count' := 0, output' := buf,
                                   str_length := of_nat L, sm_busy' := True\<rparr>,
                      leuart := (leuart k1)\<lparr>IEN_TXBL := True, IEN_TXC := False\<rparr>\<rparr>"
  have buflen: "length buf = 80"
    using out L80 by (simp add: buf_def strcpy_def)
  have buftake: "take L buf = string"
    by (simp add: buf_def strcpy_def L_def)
  have start: "leuart_start tx_em string (of_nat (length string)) s = Inr s1"
    using idle em out L80
    by (simp add: leuart_start_def k_sleep_block_mode_def sleep_block_mode_def s1_def k1_def
        buf_def L_def)
  \<comment> \<open>first interrupt: \<open>idle\<close>\<close>
  define s2 where "s2 = s1\<lparr>leuart := (leuart s1)\<lparr>TXDATA_bytes := TXDATA_bytes (leuart s) @ [buf ! 0]\<rparr>,
                         sm := (sm s1)\<lparr>count' := 1, state' := send_data\<rparr>\<rparr>"
  have irq1: "LEUART0_IRQHandler tx_em (\<lambda>f. True) s1 = Inr s2"
    using buflen
    by (simp add: LEUART0_IRQHandler_def on_flag_def leuart0_txbl_interrupt_def send_next_def
        s1_def s2_def k1_def)
  \<comment> \<open>the interrupts in \<open>send_data\<close> before the last byte\<close>
  have Lw: "unat (of_nat L - 1 :: 32 word) = L - 1"
    using L2 L80 unfolding L_def by (simp add: unat_sub word_le_nat_alt unat_of_nat)
  define s3 where "s3 = s2\<lparr>leuart := (leuart s2)\<lparr>TXDATA_bytes :=
                TXDATA_bytes (leuart s2) @ take (L - 2) (drop 1 buf)\<rparr>,
             sm := (sm s2)\<lparr>count' := count' (sm s2) + of_nat (L - 2)\<rparr>\<rparr>"
  have loop: "leuart_drain tx_em (L - 2) s2 = Inr s3"
    unfolding s3_def
    using buflen L2 L80 Lw
    by (intro drain_sending[where c = 1, THEN trans]) (auto simp: s2_def s1_def k1_def L_def)
  have cnt3: "count' (sm s3) = of_nat L - 1"
    using L2 unfolding L_def s3_def s2_def by (simp add: of_nat_diff)
  have bytes3: "TXDATA_bytes (leuart s3) = TXDATA_bytes (leuart s) @ take (L - 1) buf"
  proof -
    have "take (L - 1) buf = buf ! 0 # take (L - 2) (drop 1 buf)"
      using buflen L2 L80 unfolding L_def
      by (cases buf) (simp_all add: take_Suc_Cons[symmetric] Suc_diff_Suc numeral_2_eq_2 del: take_Suc_Cons)
    then show ?thesis by (simp add: s3_def s2_def)
  qed
  \<comment> \<open>the last byte\<close>
  define s4 where "s4 = s3\<lparr>leuart := (leuart s3)\<lparr>TXDATA_bytes := TXDATA_bytes (leuart s) @ string,
                                          IEN_TXBL := False, IEN_TXC := True\<rparr>,
                     sm := (sm s3)\<lparr>count' := of_nat L, state' := active_trans\<rparr>\<rparr>"
  have last: "take (L - 1) buf @ [buf ! (L - 1)] = string"
  proof -
    have "take (Suc (L - 1)) buf = take (L - 1) buf @ [buf ! (L - 1)]"
      using buflen L80 by (intro take_Suc_conv_app_nth) (simp add: L_def)
    moreover have "Suc (L - 1) = L" using L2 by (simp add: L_def)
    ultimately show ?thesis using buftake by simp
  qed
  have irq_last: "LEUART0_IRQHandler tx_em (\<lambda>f. True) s3 = Inr s4"
    using cnt3 Lw bytes3 last buflen L2 L80
    by (simp add: LEUART0_IRQHandler_def on_flag_def leuart0_txbl_interrupt_def send_next_def
        s4_def s3_def s2_def s1_def k1_def L_def)
  \<comment> \<open>the two transmission-complete interrupts\<close>
  define s5 where "s5 = s4\<lparr>sm := (sm s4)\<lparr>state' := end_comm\<rparr>,
                         leuart := (leuart s4)\<lparr>IFS_TXC := True\<rparr>\<rparr>"
  have irq5: "LEUART0_IRQHandler tx_em (\<lambda>f. True) s4 = Inr s5"
    by (simp add: LEUART0_IRQHandler_def on_flag_def leuart0_txc_interrupt_def s5_def s4_def)
  define s6 where "s6 = s5\<lparr>leuart := (leuart s5)\<lparr>IEN_TXC := False\<rparr>,
                         sm := (sm s5)\<lparr>sm_busy' := False\<rparr>,
                         lowest_energy_mode := lowest_energy_mode s,
                         calls := calls s @ [Sleep_block tx_em, Sleep_unblock tx_em,
                                             Add_event (tx_done_evt s)],
                         event_scheduled := add_scheduled_event (tx_done_evt s) (event_scheduled s)\<rparr>"
  have irq6: "LEUART0_IRQHandler tx_em (\<lambda>f. True) s5 = Inr s6"
    using em
    by (simp add: LEUART0_IRQHandler_def on_flag_def leuart0_txc_interrupt_def
        k_sleep_unblock_mode_def sleep_unblock_mode_def k_add_scheduled_event_def
        s6_def s5_def s4_def s3_def s2_def s1_def k1_def)
  have en1: "IEN_TXBL (leuart s1)" by (simp add: s1_def)
  have en3: "IEN_TXBL (leuart s3)" by (simp add: s3_def s2_def s1_def)
  have en4: "IEN_TXC (leuart s4)" by (simp add: s4_def)
  have en5: "IEN_TXC (leuart s5)" by (simp add: s5_def s4_def)
  have split2: "length string = Suc ((L - 2) + Suc 0)"
    "length string + 2 = Suc ((L - 2) + Suc (Suc (Suc 0)))"
    using L2 by (simp_all add: L_def)
  have first: "leuart_drain tx_em (Suc n) s1 = leuart_drain tx_em n s2" for n
    using en1 irq1 by simp
  have middle: "leuart_drain tx_em ((L - 2) + m) s2 = leuart_drain tx_em m s3" for m
    using loop by (simp only: leuart_drain_add and_then_simps)
  have d1: "leuart_drain tx_em (Suc 0) s3 = Inr s4"
    using en3 irq_last by simp
  have d3: "leuart_drain tx_em (Suc (Suc (Suc 0))) s3 = Inr s6"
    using en3 en4 en5 irq_last irq5 irq6 by simp
  have run2: "leuart_drain tx_em (length string) s1 = Inr s4"
    by (simp only: split2(1) first middle d1)
  have run3: "leuart_drain tx_em (length string + 2) s1 = Inr s6"
    by (simp only: split2(2) first middle d3)
  have p4: "TXDATA_bytes (leuart s4) = TXDATA_bytes (leuart s) @ string"
    "\<not> IEN_TXBL (leuart s4)" "IEN_TXC (leuart s4)" "calls s4 = calls s @ [Sleep_block tx_em]"
    by (simp_all add: s4_def s3_def s2_def s1_def k1_def)
  have p6: "TXDATA_bytes (leuart s6) = TXDATA_bytes (leuart s) @ string"
    "\<not> IEN_TXBL (leuart s6)" "\<not> IEN_TXC (leuart s6)" "\<not> sm_busy' (sm s6)"
    "calls s6 = calls s @ [Sleep_block tx_em, Sleep_unblock tx_em, Add_event (tx_done_evt s)]"
    "lowest_energy_mode s6 = lowest_energy_mode s"
    "event_scheduled s6 = add_scheduled_event (tx_done_evt s) (event_scheduled s)"
    by (simp_all add: s6_def s5_def s4_def)
  from start run2 run3 p4 p6 show ?thesis by blast
qed

text \<open>
  C7 says that a drain request of any length from 1 on sends exactly its payload
  and reaches the exit point. The code does not do it for a payload of one
  character. The handler of \<^verbatim>\<open>TXBL\<close> sends the first character in \<open>idle\<close> without looking at the length and
  goes to \<open>send_data\<close>, where \<^verbatim>\<open>sm.count == sm.str_length - 1\<close> compares 1 with 0:
  the branch for the last character is never taken. After two interrupts two bytes
  have gone out, the character and the terminator; \<^verbatim>\<open>TXBL\<close> stays enabled and \<^verbatim>\<open>TXC\<close>
  disabled; after 80 interrupts the whole of \<^verbatim>\<open>sm.output\<close> has gone out; the 81st
  reads past its end. The hold is never released and the event never posted.
\<close>

theorem one_byte_drain_runs_on:
  "(case one_byte_drain 2 of
      Inl h \<Rightarrow> False
    | Inr s \<Rightarrow> TXDATA_bytes (leuart s) = [0x41, 0] \<and> state' (sm s) = send_data \<and>
        IEN_TXBL (leuart s) \<and> \<not> IEN_TXC (leuart s) \<and>
        calls s = [Sleep_block EM3] \<and> event_scheduled s = 0) \<and>
   (case one_byte_drain 80 of
      Inl h \<Rightarrow> False
    | Inr s \<Rightarrow> TXDATA_bytes (leuart s) = 0x41 # replicate 79 0 \<and> state' (sm s) = send_data \<and>
        IEN_TXBL (leuart s) \<and> \<not> IEN_TXC (leuart s) \<and>
        calls s = [Sleep_block EM3] \<and> event_scheduled s = 0) \<and>
   one_byte_drain 81 = Inl OutOfBounds"
  by code_simp

section \<open>Properties of the ring buffer\<close>

lemma and_mask_mod: "x AND (2 ^ k - 1) = x mod 2 ^ k" for x :: nat
  unfolding mask_eq_exp_minus_1[symmetric] take_bit_eq_mask[symmetric]
  by (rule take_bit_eq_mod)

lemma ble_circ_space_used:
  assumes ok: "ring_ok k cb" and k: "k \<le> 7"
    and w: "write_ptr cb = (read_ptr cb + T) mod 2 ^ k" and T: "T < 2 ^ k"
  shows "ble_circ_space cb = 2 ^ k - T"
proof -
  have C: "(2::nat) ^ k \<le> 128"
    using k power_increasing[of k 7 "2::nat"] by simp
  from ok have r: "read_ptr cb < 2 ^ k" and sz: "size_cb cb = 2 ^ k"
    by (simp_all add: ring_ok_def)
  have small: "nat (int (2 ^ k - T) mod 256) = 2 ^ k - T"
    using C by (simp add: nat_mod_distrib)
  show ?thesis
  proof (cases "read_ptr cb + T < 2 ^ k")
    case True
    with w have w': "write_ptr cb = read_ptr cb + T" by simp
    have "int (size_cb cb) - \<bar>int (write_ptr cb) - int (read_ptr cb)\<bar> = int (2 ^ k - T)"
      using T by (simp add: w' sz of_nat_diff)
    with w' small show ?thesis
      by (simp add: ble_circ_space_def)
  next
    case False
    with r T have "(read_ptr cb + T) mod 2 ^ k = read_ptr cb + T - 2 ^ k"
      by (simp add: mod_if)
    with w have w': "write_ptr cb = read_ptr cb + T - 2 ^ k" by simp
    with False T r have lt: "write_ptr cb < read_ptr cb" by simp
    have "int (read_ptr cb) - int (write_ptr cb) = int (2 ^ k - T)"
      using w' False T by (simp add: of_nat_diff)
    with lt small show ?thesis
      by (simp add: ble_circ_space_def)
  qed
qed

lemma length_store:
  "length (foldl (\<lambda>buf i. buf[f i := g i]) b xs) = length b"
  by (induction xs arbitrary: b) simp_all

lemma ble_circ_push_fits:
  assumes ok: "ring_ok k cb" and k: "k \<le> 7"
    and w: "write_ptr cb = (read_ptr cb + T) mod 2 ^ k"
    and fit: "T + encoded_size m \<le> 2 ^ k"
  shows "\<exists>cb'. ble_circ_push m cb = Inr cb' \<and> ring_ok k cb' \<and>
     read_ptr cb' = read_ptr cb \<and>
     write_ptr cb' = (read_ptr cb + (T + encoded_size m)) mod 2 ^ k"
proof -
  from fit have T: "T < 2 ^ k" by (simp add: encoded_size_def)
  have sp: "ble_circ_space cb = 2 ^ k - T"
    by (rule ble_circ_space_used[OF ok k w T])
  with fit have enough: "\<not> ble_circ_space cb < length m + 1"
    by (simp add: encoded_size_def)
  from ok have inside: "write_ptr cb < length (cbuf cb)" "size_mask cb < length (cbuf cb)"
    by (simp_all add: ring_ok_def)
  have wnew: "((read_ptr cb + T) mod 2 ^ k + (length m + 1)) mod 2 ^ k =
      (read_ptr cb + (T + (length m + 1))) mod 2 ^ k"
    by (metis mod_add_left_eq add.assoc)
  have "ble_circ_push m cb = Inr (update_circ_wrtindex
          (cb\<lparr>cbuf := foldl (\<lambda>buf i. buf[(write_ptr cb + i + 1) AND size_mask cb := m ! i])
                          ((cbuf cb)[write_ptr cb := of_nat (length m + 1)])
                          [0 ..< length m + 1 - 1]\<rparr>)
          (length m + 1))"
    using enough inside by (simp add: ble_circ_push_def Let_def)
  moreover have "(write_ptr cb + (length m + 1)) AND size_mask cb =
      (read_ptr cb + (T + (length m + 1))) mod 2 ^ k"
    using ok w wnew by (simp only: ring_ok_def and_mask_mod)
  ultimately show ?thesis
    using ok
    by (simp add: update_circ_wrtindex_def ring_ok_def length_store encoded_size_def
        del: One_nat_def)
qed

text \<open>
  While less than the capacity is in use, a push that does not fit is fatal.
\<close>

lemma ble_circ_push_overflow:
  assumes ok: "ring_ok k cb" and k: "k \<le> 7"
    and w: "write_ptr cb = (read_ptr cb + T) mod 2 ^ k"
    and T: "T < 2 ^ k" and over: "2 ^ k < T + encoded_size m"
  shows "ble_circ_push m cb = Inl AssertFailed"
proof -
  have "ble_circ_space cb = 2 ^ k - T"
    by (rule ble_circ_space_used[OF ok k w T])
  moreover from over T have "2 ^ k - T < length m + 1"
    by (simp add: encoded_size_def)
  ultimately show ?thesis
    by (simp add: ble_circ_push_def Let_def)
qed

text \<open>
  From a buffer with \<open>T\<close> bytes in use, pushes that bring the total to at most the
  capacity all succeed, and the write cursor ends \<open>T\<close> plus their total encoded size
  past the read cursor, modulo the capacity.
\<close>

lemma push_all_fits:
  assumes "ring_ok k cb" and "k \<le> 7"
    and "write_ptr cb = (read_ptr cb + T) mod 2 ^ k"
    and "T + total_encoded_size ms \<le> 2 ^ k"
  shows "\<exists>cb'. push_all ms cb = Inr cb' \<and> ring_ok k cb' \<and>
     read_ptr cb' = read_ptr cb \<and>
     write_ptr cb' = (read_ptr cb + (T + total_encoded_size ms)) mod 2 ^ k"
  using assms
proof (induction ms arbitrary: cb T)
  case Nil
  then show ?case by (simp add: total_encoded_size_def)
next
  case (Cons m ms)
  from Cons.prems(4) have fit: "T + encoded_size m \<le> 2 ^ k"
    and rest: "(T + encoded_size m) + total_encoded_size ms \<le> 2 ^ k"
    by (simp_all add: total_encoded_size_def)
  from ble_circ_push_fits[OF Cons.prems(1,2,3) fit]
  obtain cb1 where p: "ble_circ_push m cb = Inr cb1" and ok1: "ring_ok k cb1"
    and r1: "read_ptr cb1 = read_ptr cb"
    and w1: "write_ptr cb1 = (read_ptr cb1 + (T + encoded_size m)) mod 2 ^ k"
    by auto
  from Cons.IH[OF ok1 Cons.prems(2) w1 rest] r1 p
  show ?case
    by (simp add: total_encoded_size_def add.assoc and_then_def)
qed


lemma ring_slots_distinct:
  fixes C :: nat
  assumes "i < n" "n < C"
  shows "(r + i + 1) mod C \<noteq> (r + n + 1) mod C"
proof
  assume "(r + i + 1) mod C = (r + n + 1) mod C"
  then have "(r + n + 1) mod C = (r + i + 1) mod C" by simp
  with assms have "C dvd (r + n + 1) - (r + i + 1)"
    by (simp add: mod_eq_dvd_iff_nat)
  moreover from assms have "(r + n + 1) - (r + i + 1) = n - i" by simp
  ultimately have "C dvd n - i" by simp
  with assms have "C \<le> n - i" by (intro dvd_imp_le) simp_all
  with assms show False by simp
qed

lemma ring_slot_not_cursor:
  fixes C :: nat
  assumes "r < C" "i + 1 < C"
  shows "(r + i + 1) mod C \<noteq> r"
proof
  assume e: "(r + i + 1) mod C = r"
  from assms have "r mod C = r" by simp
  with e have "(r + i + 1) mod C = r mod C" by simp
  then have "C dvd (r + i + 1) - r"
    by (simp add: mod_eq_dvd_iff_nat)
  then have "C dvd i + 1" by simp
  then have "C \<le> i + 1" by (intro dvd_imp_le) simp_all
  with assms show False by simp
qed

lemma store_Suc:
  "foldl (\<lambda>buf i. buf[f i := g i]) b [0 ..< Suc n] =
     (foldl (\<lambda>buf i. buf[f i := g i]) b [0 ..< n])[f n := g n]"
  by simp

lemma stored_chars:
  fixes C :: nat
  assumes "length b = C" "n < C" "i < n"
  shows "foldl (\<lambda>buf i. buf[(r + i + 1) mod C := m ! i]) b [0 ..< n] ! ((r + i + 1) mod C) = m ! i"
  using assms
proof (induction n)
  case 0
  then show ?case by simp
next
  case (Suc n)
  let ?F = "foldl (\<lambda>buf i. buf[(r + i + 1) mod C := m ! i]) b [0 ..< n]"
  from Suc.prems have C0: "0 < C" by simp
  have len: "length ?F = C" using Suc.prems(1) by (simp add: length_store)
  show ?case
  proof (cases "i = n")
    case True
    with len C0 show ?thesis
      by (simp only: store_Suc) simp
  next
    case False
    with Suc.prems have i: "i < n" and n: "n < C" by simp_all
    from ring_slots_distinct[OF i n, of r]
    have ne: "(r + n + 1) mod C \<noteq> (r + i + 1) mod C" by simp
    from Suc.IH[OF Suc.prems(1) n i] ne show ?thesis
      by (simp only: store_Suc) simp
  qed
qed

lemma stored_length_byte:
  fixes C :: nat
  assumes "r < C" "n < C"
  shows "foldl (\<lambda>buf i. buf[(r + i + 1) mod C := m ! i]) b [0 ..< n] ! r = b ! r"
  using assms
proof (induction n)
  case 0
  then show ?case by simp
next
  case (Suc n)
  from Suc.prems have "n + 1 < C" by simp
  from ring_slot_not_cursor[OF Suc.prems(1) this]
  have ne: "(r + n + 1) mod C \<noteq> r" .
  from Suc.prems have "n < C" by simp
  from Suc.IH[OF Suc.prems(1) this] ne show ?case
    by (simp only: store_Suc) simp
qed

text \<open>
  The round trip below the capacity: from an empty buffer, whatever the common value
  of the cursors, a message whose encoded size is less than the capacity comes back
  from the pop that follows its push, character for character, handed to
  \<^verbatim>\<open>leuart_start\<close> with its length, and \<^verbatim>\<open>ble_circ_space\<close> is back at its value before
  the push.
\<close>

lemma push_pop_roundtrip:
  assumes ok: "ring_ok k cb" and k: "k \<le> 7"
    and empty: "read_ptr cb = write_ptr cb"
    and fit: "encoded_size m < 2 ^ k"
  shows "\<exists>cb1 cb2. ble_circ_push m cb = Inr cb1 \<and>
     ble_circ_pop False False cb1 = Inr (False, Leuart_start m (length m), cb2) \<and>
     ble_circ_space cb2 = ble_circ_space cb \<and>
     read_ptr cb2 = write_ptr cb2"
proof -
  define C :: nat where "C = 2 ^ k"
  define r where "r = read_ptr cb"
  define L where "L = length m"
  have C128: "C \<le> 128"
    using k power_increasing[of k 7 "2::nat"] by (simp add: C_def)
  from ok have r: "r < C" and w: "write_ptr cb = r" and mask: "size_mask cb = C - 1"
    and len: "length (cbuf cb) = C" and sz: "size_cb cb = C"
    using empty by (simp_all add: ring_ok_def C_def r_def)
  from fit have L: "L + 1 < C" by (simp add: encoded_size_def C_def L_def)
  have maskmod: "x AND (C - Suc 0) = x mod C" for x
    using and_mask_mod[of x k] by (simp add: C_def)
  define b where "b = (cbuf cb)[r := of_nat (L + 1)]"
  define buf where "buf = foldl (\<lambda>buf i. buf[(r + i + 1) mod C := m ! i]) b [0 ..< L]"
  define cb1 where "cb1 = cb\<lparr>cbuf := buf, write_ptr := (r + (L + 1)) mod C\<rparr>"
  have space0: "ble_circ_space cb = C"
    using ble_circ_space_used[OF ok k, of 0] r w by (simp add: C_def r_def)
  have push: "ble_circ_push m cb = Inr cb1"
    using space0 L r len mask w
    by (simp add: ble_circ_push_def Let_def update_circ_wrtindex_def maskmod cb1_def buf_def
        b_def L_def)
  have blen: "length b = C" by (simp add: b_def len)
  have buflen: "length buf = C" by (simp add: buf_def length_store blen)
  have lenbyte: "buf ! r = of_nat (L + 1)"
    unfolding buf_def using stored_length_byte[OF r, of L m b] L r blen
    by (simp add: b_def)
  have unat_len: "unat (of_nat (L + 1) :: 8 word) = L + 1"
  proof -
    have "unat (of_nat (L + 1) :: 8 word) = (L + 1) mod 2 ^ LENGTH(8)"
      by (rule unat_of_nat)
    also have "\<dots> = L + 1" using L C128 by simp
    finally show ?thesis .
  qed
  have chars: "map (\<lambda>i. buf ! ((r + i + 1) mod C)) [0 ..< L] = m"
  proof -
    have "map (\<lambda>i. buf ! ((r + i + 1) mod C)) [0 ..< L] = map (\<lambda>i. m ! i) [0 ..< L]"
    proof (rule map_cong[OF refl])
      fix i assume "i \<in> set [0 ..< L]"
      then have "i < L" by simp
      with L blen show "buf ! ((r + i + 1) mod C) = m ! i"
        unfolding buf_def by (intro stored_chars) simp_all
    qed
    then show ?thesis by (simp add: L_def map_nth)
  qed
  have moved: "(r + (L + 1)) mod C \<noteq> r"
    using ring_slot_not_cursor[OF r, of L] L by (simp add: add.assoc)
  define cb2 where "cb2 = cb1\<lparr>read_ptr := (r + (L + 1)) mod C\<rparr>"
  have pop: "ble_circ_pop False False cb1 = Inr (False, Leuart_start m (length m), cb2)"
    using moved r buflen L lenbyte unat_len chars mask
    by (simp add: ble_circ_pop_def cb1_def cb2_def r_def[symmetric] update_circ_readindex_def
        maskmod Let_def L_def and_mask_mod C_def[symmetric])
  have ok2: "ring_ok k cb2"
    using ok buflen r L by (simp add: ring_ok_def cb2_def cb1_def C_def[symmetric])
  have space2: "ble_circ_space cb2 = C"
    using ble_circ_space_used[OF ok2 k, of 0] by (simp add: cb2_def cb1_def C_def)
  from push pop space0 space2 show ?thesis
    by (auto simp: cb2_def cb1_def)
qed

lemma ring_offsets_distinct:
  fixes C :: nat
  assumes "a < b" "b < a + C"
  shows "(r + a) mod C \<noteq> (r + b) mod C"
proof
  assume "(r + a) mod C = (r + b) mod C"
  then have "(r + b) mod C = (r + a) mod C" by simp
  with assms have "C dvd (r + b) - (r + a)"
    by (simp add: mod_eq_dvd_iff_nat)
  moreover from assms have "(r + b) - (r + a) = b - a" by simp
  ultimately have "C dvd b - a" by simp
  with assms have "C \<le> b - a" by (intro dvd_imp_le) simp_all
  with assms show False by simp
qed

lemma stored_elsewhere:
  assumes "\<forall>i<n. f i \<noteq> p"
  shows "foldl (\<lambda>buf i. buf[f i := g i]) b [0 ..< n] ! p = b ! p"
  using assms
proof (induction n)
  case 0
  then show ?case by simp
next
  case (Suc n)
  then have "f n \<noteq> p" and "\<forall>i<n. f i \<noteq> p" by simp_all
  with Suc.IH show ?case
    by (simp only: store_Suc) simp
qed

lemma length_encode_message: "length (encode_message m) = encoded_size m"
  by (simp add: encode_message_def encoded_size_def)

lemma length_encode_messages: "length (encode_messages ms) = total_encoded_size ms"
  by (induction ms)
    (simp_all add: encode_messages_def total_encoded_size_def length_encode_message)

lemma ble_circ_push_result:
  assumes ok: "ring_ok k cb" and k: "k \<le> 7"
    and w: "write_ptr cb = (read_ptr cb + T) mod 2 ^ k"
    and fit: "T + encoded_size m \<le> 2 ^ k"
  shows "ble_circ_push m cb =
     Inr (cb\<lparr>cbuf := foldl (\<lambda>buf i. buf[(read_ptr cb + T + i + 1) mod 2 ^ k := m ! i])
                        ((cbuf cb)[(read_ptr cb + T) mod 2 ^ k := of_nat (length m + 1)])
                        [0 ..< length m],
             write_ptr := (read_ptr cb + (T + encoded_size m)) mod 2 ^ k\<rparr>)"
proof -
  from fit have T: "T < 2 ^ k" by (simp add: encoded_size_def)
  have sp: "ble_circ_space cb = 2 ^ k - T"
    by (rule ble_circ_space_used[OF ok k w T])
  with fit have enough: "\<not> ble_circ_space cb < length m + 1"
    by (simp add: encoded_size_def)
  from ok have inside: "write_ptr cb < length (cbuf cb)" "size_mask cb < length (cbuf cb)"
    and mask: "size_mask cb = 2 ^ k - 1"
    by (simp_all add: ring_ok_def)
  have slot: "(write_ptr cb + i + 1) AND size_mask cb = (read_ptr cb + T + i + 1) mod 2 ^ k" for i
  proof -
    have "(write_ptr cb + i + 1) AND size_mask cb = (write_ptr cb + (i + 1)) mod 2 ^ k"
      by (simp only: mask and_mask_mod add.assoc)
    also have "\<dots> = ((read_ptr cb + T) + (i + 1)) mod 2 ^ k"
      unfolding w by (rule mod_add_left_eq)
    finally show ?thesis by (simp only: add.assoc)
  qed
  have wnew: "(write_ptr cb + (length m + 1)) AND size_mask cb =
      (read_ptr cb + (T + encoded_size m)) mod 2 ^ k"
  proof -
    have "(write_ptr cb + (length m + 1)) AND size_mask cb =
        (write_ptr cb + (length m + 1)) mod 2 ^ k"
      by (simp only: mask and_mask_mod)
    also have "\<dots> = ((read_ptr cb + T) + (length m + 1)) mod 2 ^ k"
      unfolding w by (rule mod_add_left_eq)
    finally show ?thesis by (simp only: add.assoc encoded_size_def)
  qed
  have "ble_circ_push m cb = Inr (update_circ_wrtindex
          (cb\<lparr>cbuf := foldl (\<lambda>buf i. buf[(write_ptr cb + i + 1) AND size_mask cb := m ! i])
                          ((cbuf cb)[write_ptr cb := of_nat (length m + 1)])
                          [0 ..< length m + 1 - 1]\<rparr>)
          (length m + 1))"
    using enough inside by (simp add: ble_circ_push_def Let_def)
  then show ?thesis
    unfolding slot
    by (simp add: update_circ_wrtindex_def wnew[unfolded w] w del: One_nat_def)
qed


text \<open>
  What a push that fits leaves in the array: the bytes queued before it are
  untouched, and the next slots after them, counted from the read cursor and taken
  modulo the capacity, hold the length byte and the characters of the message.
\<close>

lemma ble_circ_push_content:
  assumes ok: "ring_ok k cb" and k: "k \<le> 7"
    and w: "write_ptr cb = (read_ptr cb + T) mod 2 ^ k"
    and fit: "T + encoded_size m \<le> 2 ^ k"
    and push: "ble_circ_push m cb = Inr cb'"
  shows "j < T \<Longrightarrow>
      cbuf cb' ! ((read_ptr cb + j) mod 2 ^ k) = cbuf cb ! ((read_ptr cb + j) mod 2 ^ k)"
    and "j < encoded_size m \<Longrightarrow>
      cbuf cb' ! ((read_ptr cb + (T + j)) mod 2 ^ k) = encode_message m ! j"
proof -
  define C :: nat where "C = 2 ^ k"
  define r where "r = read_ptr cb"
  define L where "L = length m"
  define b where "b = (cbuf cb)[(r + T) mod C := of_nat (L + 1)]"
  define buf where "buf = foldl (\<lambda>buf i. buf[(r + T + i + 1) mod C := m ! i]) b [0 ..< L]"
  from fit have TL: "T + L + 1 \<le> C" by (simp add: encoded_size_def C_def L_def)
  then have C0: "0 < C" by simp
  from ok have len: "length (cbuf cb) = C" by (simp add: ring_ok_def C_def)
  have blen: "length b = C" by (simp add: b_def len)
  from push ble_circ_push_result[OF ok k w fit]
  have buf: "cbuf cb' = buf"
    by (auto simp: buf_def b_def C_def r_def L_def)
  have chars_off: "(r + T + i + 1) mod C \<noteq> (r + a) mod C" if "i < L" "a \<le> T" for i a
  proof -
    have "(r + a) mod C \<noteq> (r + (T + i + 1)) mod C"
      using that TL by (intro ring_offsets_distinct) simp_all
    then show ?thesis by (simp add: add.assoc)
  qed
  {
    assume j: "j < T"
    have "buf ! ((r + j) mod C) = b ! ((r + j) mod C)"
      unfolding buf_def using chars_off[of _ j] j by (intro stored_elsewhere) simp
    also have "\<dots> = cbuf cb ! ((r + j) mod C)"
    proof -
      have "(r + j) mod C \<noteq> (r + T) mod C"
        using j TL by (intro ring_offsets_distinct) simp_all
      then show ?thesis by (simp add: b_def)
    qed
    finally show "cbuf cb' ! ((read_ptr cb + j) mod 2 ^ k) = cbuf cb ! ((read_ptr cb + j) mod 2 ^ k)"
      by (simp add: buf C_def r_def)
  }
  {
    assume j: "j < encoded_size m"
    have "buf ! ((r + (T + j)) mod C) = encode_message m ! j"
    proof (cases j)
      case 0
      have "buf ! ((r + T) mod C) = b ! ((r + T) mod C)"
        unfolding buf_def using chars_off[of _ T] by (intro stored_elsewhere) simp
      also have "\<dots> = of_nat (L + 1)"
        using C0 len by (simp add: b_def)
      finally show ?thesis using 0 by (simp add: encode_message_def L_def)
    next
      case (Suc i)
      with j have i: "i < L" by (simp add: encoded_size_def L_def)
      from TL have "L < C" by simp
      from stored_chars[OF blen this i, of "r + T" m]
      have "buf ! ((r + T + i + 1) mod C) = m ! i" by (simp add: buf_def)
      then show ?thesis using Suc by (simp add: encode_message_def add.assoc)
    qed
    then show "cbuf cb' ! ((read_ptr cb + (T + j)) mod 2 ^ k) = encode_message m ! j"
      by (simp add: buf C_def r_def)
  }
qed

lemma push_all_content:
  assumes "ring_ok k cb" and "k \<le> 7"
    and "write_ptr cb = (read_ptr cb + T) mod 2 ^ k"
    and "T + total_encoded_size ms \<le> 2 ^ k"
    and "length pre = T"
    and "\<forall>j<T. cbuf cb ! ((read_ptr cb + j) mod 2 ^ k) = pre ! j"
    and "push_all ms cb = Inr cb'"
  shows "\<forall>j < T + total_encoded_size ms.
     cbuf cb' ! ((read_ptr cb + j) mod 2 ^ k) = (pre @ encode_messages ms) ! j"
  using assms
proof (induction ms arbitrary: cb T pre)
  case Nil
  then show ?case by (simp add: total_encoded_size_def encode_messages_def nth_append)
next
  case (Cons m ms)
  from Cons.prems(4) have fit: "T + encoded_size m \<le> 2 ^ k"
    and rest: "(T + encoded_size m) + total_encoded_size ms \<le> 2 ^ k"
    by (simp_all add: total_encoded_size_def)
  from ble_circ_push_fits[OF Cons.prems(1,2,3) fit]
  obtain cb1 where p: "ble_circ_push m cb = Inr cb1" and ok1: "ring_ok k cb1"
    and r1: "read_ptr cb1 = read_ptr cb"
    and w1: "write_ptr cb1 = (read_ptr cb1 + (T + encoded_size m)) mod 2 ^ k"
    by auto
  from Cons.prems(7) p have run: "push_all ms cb1 = Inr cb'" by simp
  have len1: "length (pre @ encode_message m) = T + encoded_size m"
    using Cons.prems(5) by (simp add: length_encode_message)
  have c1: "\<forall>j < T + encoded_size m.
      cbuf cb1 ! ((read_ptr cb1 + j) mod 2 ^ k) = (pre @ encode_message m) ! j"
  proof (intro allI impI)
    fix j assume j: "j < T + encoded_size m"
    show "cbuf cb1 ! ((read_ptr cb1 + j) mod 2 ^ k) = (pre @ encode_message m) ! j"
    proof (cases "j < T")
      case True
      with ble_circ_push_content(1)[OF Cons.prems(1,2,3) fit p True] Cons.prems(5,6)
      show ?thesis by (simp add: r1 nth_append)
    next
      case False
      with j have "j - T < encoded_size m" and "T + (j - T) = j" by simp_all
      with ble_circ_push_content(2)[OF Cons.prems(1,2,3) fit p, of "j - T"] False Cons.prems(5)
      show ?thesis by (simp add: r1 nth_append)
    qed
  qed
  from Cons.IH[OF ok1 Cons.prems(2) w1 rest len1 c1 run]
  show ?case
    by (simp add: r1 total_encoded_size_def encode_messages_def add.assoc)
qed

lemma push_all_prefix:
  assumes "push_all (ms1 @ ms2) cb = Inr cb'"
  shows "\<exists>cb1. push_all ms1 cb = Inr cb1 \<and> push_all ms2 cb1 = Inr cb'"
  using assms
proof (induction ms1 arbitrary: cb)
  case Nil
  then show ?case by simp
next
  case (Cons m ms1)
  then show ?case by (cases "ble_circ_push m cb") simp_all
qed

text \<open>
  A pop with the transmitter idle while the cursors differ delivers the message
  stored at the read cursor and moves the read cursor past it.
\<close>

lemma ble_circ_pop_first:
  assumes ok: "ring_ok k cb" and k: "k \<le> 7"
    and ne: "read_ptr cb \<noteq> write_ptr cb"
    and fit: "encoded_size m \<le> 2 ^ k"
    and stored: "\<forall>j < encoded_size m.
        cbuf cb ! ((read_ptr cb + j) mod 2 ^ k) = encode_message m ! j"
  shows "ble_circ_pop False False cb =
     Inr (False, Leuart_start m (length m), update_circ_readindex cb (encoded_size m))"
proof -
  define C :: nat where "C = 2 ^ k"
  define r where "r = read_ptr cb"
  define L where "L = length m"
  have C128: "C \<le> 128"
    using k power_increasing[of k 7 "2::nat"] by (simp add: C_def)
  from fit have L: "L + 1 \<le> C" by (simp add: encoded_size_def C_def L_def)
  from ok have r: "r < C" and len: "length (cbuf cb) = C" and mask: "size_mask cb = C - 1"
    by (simp_all add: ring_ok_def C_def r_def)
  have maskmod: "x AND (C - Suc 0) = x mod C" for x
    using and_mask_mod[of x k] by (simp add: C_def)
  from stored[rule_format, of 0] r
  have lenbyte: "cbuf cb ! r = of_nat (L + 1)"
    by (simp add: encoded_size_def encode_message_def C_def r_def L_def)
  have unat_len: "unat (of_nat (L + 1) :: 8 word) = L + 1"
  proof -
    have "unat (of_nat (L + 1) :: 8 word) = (L + 1) mod 2 ^ LENGTH(8)"
      by (rule unat_of_nat)
    also have "\<dots> = L + 1" using L C128 by simp
    finally show ?thesis .
  qed
  have chars: "map (\<lambda>i. cbuf cb ! ((r + i + 1) mod C)) [0 ..< L] = m"
  proof -
    have "map (\<lambda>i. cbuf cb ! ((r + i + 1) mod C)) [0 ..< L] = map (\<lambda>i. m ! i) [0 ..< L]"
    proof (rule map_cong[OF refl])
      fix i assume "i \<in> set [0 ..< L]"
      then have "i + 1 < encoded_size m" by (simp add: encoded_size_def L_def)
      from stored[rule_format, OF this]
      show "cbuf cb ! ((r + i + 1) mod C) = m ! i"
        by (simp add: encode_message_def C_def r_def add.assoc)
    qed
    then show ?thesis by (simp add: L_def map_nth)
  qed
  show ?thesis
    using ne r len mask lenbyte unat_len chars
    by (simp add: ble_circ_pop_def r_def[symmetric] Let_def maskmod L_def[symmetric]
        encoded_size_def)
qed

text \<open>
  C10. Let the capacity be a power of two up to 128 (the result of \<^verbatim>\<open>ble_circ_space\<close>
  is 8 bits wide) and the buffer empty, the cursors at any common value. If messages
  whose encoded sizes sum to exactly the capacity are pushed, every push succeeds and
  the array, read from the read cursor round to the index before it, holds the
  length byte and the characters of every message, in the order pushed: the bytes
  are queued. The write cursor has gone once round the array and is back on the read
  cursor. In that state \<^verbatim>\<open>ble_circ_space\<close> reports the whole capacity as free, and
  \<^verbatim>\<open>ble_circ_pop\<close> returns true, delivers nothing and leaves the buffer as it is,
  whether or not the transmitter is busy and in test mode or not: no pop reaches the
  queued bytes. Before the last push it was otherwise: after any number of the
  pushes but the last, the write cursor is off the read cursor by the bytes queued so
  far, \<^verbatim>\<open>ble_circ_space\<close> reports the capacity less those bytes, and a pop with the
  transmitter idle delivers the first message.
\<close>

theorem full_ring_reads_as_empty:
  assumes ok: "ring_ok k cb" and k: "k \<le> 7"
    and empty: "read_ptr cb = write_ptr cb"
    and total: "total_encoded_size ms = 2 ^ k"
  shows "\<exists>cb'. push_all ms cb = Inr cb' \<and>
     rotate (read_ptr cb) (cbuf cb') = encode_messages ms \<and>
     write_ptr cb' = read_ptr cb' \<and> read_ptr cb' = read_ptr cb \<and>
     size_cb cb' = 2 ^ k \<and> ble_circ_space cb' = 2 ^ k \<and>
     ble_circ_pop tx_busy test cb' = Inr (True, Nothing_delivered, cb') \<and>
     (\<forall>n. 0 < n \<and> n < length ms \<longrightarrow>
        (\<exists>cb1. push_all (take n ms) cb = Inr cb1 \<and>
           write_ptr cb1 = (read_ptr cb + total_encoded_size (take n ms)) mod 2 ^ k \<and>
           write_ptr cb1 \<noteq> read_ptr cb1 \<and>
           ble_circ_space cb1 = 2 ^ k - total_encoded_size (take n ms) \<and>
           ble_circ_pop False False cb1 =
             Inr (False, Leuart_start (hd ms) (length (hd ms)),
                  update_circ_readindex cb1 (encoded_size (hd ms)))))"
proof -
  define C :: nat where "C = 2 ^ k"
  define r where "r = read_ptr cb"
  from ok have r: "r < C" by (simp add: ring_ok_def C_def r_def)
  with empty have w0: "write_ptr cb = (read_ptr cb + 0) mod 2 ^ k" by (simp add: C_def r_def)
  from total have fit: "0 + total_encoded_size ms \<le> 2 ^ k" by simp
  from push_all_fits[OF ok k w0 fit] obtain cb' where
    p: "push_all ms cb = Inr cb'" and ok': "ring_ok k cb'" and r': "read_ptr cb' = read_ptr cb"
    and w': "write_ptr cb' = (read_ptr cb + (0 + total_encoded_size ms)) mod 2 ^ k"
    by blast
  from w' total r r' have same: "write_ptr cb' = read_ptr cb'" by (simp add: C_def r_def)
  then have w0': "write_ptr cb' = (read_ptr cb' + 0) mod 2 ^ k"
    using r r' by (simp add: C_def r_def)
  have sp: "ble_circ_space cb' = 2 ^ k"
    using ble_circ_space_used[OF ok' k w0'] by simp
  have pop: "ble_circ_pop tx_busy test cb' = Inr (True, Nothing_delivered, cb')"
    using same by (simp add: ble_circ_pop_def)
  from ok' have sz: "size_cb cb' = 2 ^ k" and len': "length (cbuf cb') = C"
    by (simp_all add: ring_ok_def C_def)
  \<comment> \<open>what the array holds\<close>
  have content: "\<forall>j < 0 + total_encoded_size ms.
      cbuf cb' ! ((read_ptr cb + j) mod 2 ^ k) = ([] @ encode_messages ms) ! j"
    by (rule push_all_content[OF ok k w0 fit _ _ p]) simp_all
  have rot: "rotate (read_ptr cb) (cbuf cb') = encode_messages ms"
  proof (rule nth_equalityI)
    show "length (rotate (read_ptr cb) (cbuf cb')) = length (encode_messages ms)"
      using len' total by (simp add: length_encode_messages C_def)
  next
    fix j assume "j < length (rotate (read_ptr cb) (cbuf cb'))"
    then have j: "j < C" using len' by simp
    with len' have "rotate (read_ptr cb) (cbuf cb') ! j = cbuf cb' ! ((read_ptr cb + j) mod C)"
      by (simp add: nth_rotate)
    also have "\<dots> = encode_messages ms ! j"
      using content j total by (simp add: C_def)
    finally show "rotate (read_ptr cb) (cbuf cb') ! j = encode_messages ms ! j" .
  qed
  \<comment> \<open>before the last push\<close>
  have before: "\<exists>cb1. push_all (take n ms) cb = Inr cb1 \<and>
           write_ptr cb1 = (read_ptr cb + total_encoded_size (take n ms)) mod 2 ^ k \<and>
           write_ptr cb1 \<noteq> read_ptr cb1 \<and>
           ble_circ_space cb1 = 2 ^ k - total_encoded_size (take n ms) \<and>
           ble_circ_pop False False cb1 =
             Inr (False, Leuart_start (hd ms) (length (hd ms)),
                  update_circ_readindex cb1 (encoded_size (hd ms)))"
    if n: "0 < n" "n < length ms" for n
  proof -
    define T where "T = total_encoded_size (take n ms)"
    from n obtain m ms' where ms: "ms = m # ms'" by (cases ms) auto
    from n obtain n' where n': "n = Suc n'" by (cases n) auto
    have tk: "take n ms = m # take n' ms'" by (simp add: ms n')
    from n have "drop n ms \<noteq> []" by simp
    then obtain d ds where dr: "drop n ms = d # ds" by (cases "drop n ms") auto
    have "total_encoded_size ms = T + total_encoded_size (drop n ms)"
      unfolding T_def total_encoded_size_def
      by (metis append_take_drop_id map_append sum_list_append)
    with total dr have T_lt: "T < C"
      by (simp add: total_encoded_size_def encoded_size_def C_def)
    have T_pos: "encoded_size m \<le> T"
      by (simp add: T_def tk total_encoded_size_def)
    then have T0: "0 < T" by (simp add: encoded_size_def)
    from T_lt have fitT: "0 + total_encoded_size (take n ms) \<le> 2 ^ k"
      by (simp add: T_def C_def)
    from push_all_fits[OF ok k w0 fitT] obtain cb1 where
      p1: "push_all (take n ms) cb = Inr cb1" and ok1: "ring_ok k cb1"
      and r1: "read_ptr cb1 = read_ptr cb"
      and w1: "write_ptr cb1 = (read_ptr cb + (0 + total_encoded_size (take n ms))) mod 2 ^ k"
      by blast
    from w1 have w1': "write_ptr cb1 = (read_ptr cb1 + T) mod 2 ^ k"
      by (simp add: r1 T_def)
    have "(r + 0) mod C \<noteq> (r + T) mod C"
      using T0 T_lt by (intro ring_offsets_distinct) simp_all
    with r have ne: "write_ptr cb1 \<noteq> read_ptr cb1"
      using w1' by (simp add: r1 r_def C_def)
    have sp1: "ble_circ_space cb1 = 2 ^ k - T"
      using T_lt by (intro ble_circ_space_used[OF ok1 k w1']) (simp add: C_def)
    have c1: "\<forall>j < 0 + total_encoded_size (take n ms).
        cbuf cb1 ! ((read_ptr cb + j) mod 2 ^ k) = ([] @ encode_messages (take n ms)) ! j"
      by (rule push_all_content[OF ok k w0 fitT _ _ p1]) simp_all
    have stored: "\<forall>j < encoded_size m.
        cbuf cb1 ! ((read_ptr cb1 + j) mod 2 ^ k) = encode_message m ! j"
    proof (intro allI impI)
      fix j assume j: "j < encoded_size m"
      with T_pos have "j < 0 + total_encoded_size (take n ms)" by (simp add: T_def)
      with c1 have "cbuf cb1 ! ((read_ptr cb + j) mod 2 ^ k) = encode_messages (take n ms) ! j"
        by simp
      also have "\<dots> = encode_message m ! j"
        using j by (simp add: tk encode_messages_def nth_append length_encode_message)
      finally show "cbuf cb1 ! ((read_ptr cb1 + j) mod 2 ^ k) = encode_message m ! j"
        by (simp add: r1)
    qed
    from T_pos T_lt have fitm: "encoded_size m \<le> 2 ^ k" by (simp add: C_def)
    from ne have ne': "read_ptr cb1 \<noteq> write_ptr cb1" by simp
    have pop1: "ble_circ_pop False False cb1 =
        Inr (False, Leuart_start m (length m), update_circ_readindex cb1 (encoded_size m))"
      by (rule ble_circ_pop_first[OF ok1 k ne' fitm stored])
    from p1 w1 ne sp1 pop1 show ?thesis
      by (auto simp: T_def ms)
  qed
  from p rot same r' sz sp pop before show ?thesis by blast
qed

theorem full_ring_reads_as_empty_witness:
  "ring_ok 6 ring64 \<and> read_ptr ring64 = write_ptr ring64 \<and>
   total_encoded_size [take 50 msg63, take 12 msg63] = 2 ^ 6 \<and>
   (\<exists>cb'. push_all [take 50 msg63, take 12 msg63] ring64 = Inr cb' \<and>
      cbuf cb' = encode_messages [take 50 msg63, take 12 msg63] \<and>
      cbuf cb' ! 0 = 51 \<and> cbuf cb' ! 1 = 1 \<and> cbuf cb' ! 50 = 50 \<and>
      cbuf cb' ! 51 = 13 \<and> cbuf cb' ! 52 = 1 \<and> cbuf cb' ! 63 = 12 \<and>
      write_ptr cb' = read_ptr cb' \<and> read_ptr cb' = 0 \<and>
      size_cb cb' = 64 \<and> ble_circ_space cb' = 64 \<and>
      ble_circ_pop False False cb' = Inr (True, Nothing_delivered, cb')) \<and>
   (\<exists>cb1. push_all [take 50 msg63] ring64 = Inr cb1 \<and>
      write_ptr cb1 = 51 \<and> read_ptr cb1 = 0 \<and> ble_circ_space cb1 = 13 \<and>
      ble_circ_pop False False cb1 =
        Inr (False, Leuart_start (take 50 msg63) 50, update_circ_readindex cb1 51))"
proof -
  let ?ms = "[take 50 msg63, take 12 msg63]"
  have h: "ring_ok 6 ring64" "(6::nat) \<le> 7" "read_ptr ring64 = write_ptr ring64"
    "total_encoded_size ?ms = 2 ^ 6"
    by (simp_all add: ring_ok_def ring64_def ble_circ_init_def total_encoded_size_def
        encoded_size_def msg63_def)
  have r0: "read_ptr ring64 = 0" by (simp add: ring64_def ble_circ_init_def)
  have enc: "encode_messages ?ms ! 0 = 51" "encode_messages ?ms ! 1 = 1"
    "encode_messages ?ms ! 50 = 50" "encode_messages ?ms ! 51 = 13"
    "encode_messages ?ms ! 52 = 1" "encode_messages ?ms ! 63 = 12"
    by code_simp+
  have sizes: "take 1 ?ms = [take 50 msg63]" "hd ?ms = take 50 msg63"
    by simp_all
  have nums: "total_encoded_size [take 50 msg63] = 51" "encoded_size (take 50 msg63) = 51"
    "length (take 50 msg63) = 50"
    by (simp_all add: total_encoded_size_def encoded_size_def msg63_def)
  from full_ring_reads_as_empty[OF h, of False False] obtain cb' where
    full: "push_all ?ms ring64 = Inr cb'"
      "rotate (read_ptr ring64) (cbuf cb') = encode_messages ?ms"
      "write_ptr cb' = read_ptr cb'" "read_ptr cb' = read_ptr ring64"
      "size_cb cb' = 2 ^ 6" "ble_circ_space cb' = 2 ^ 6"
      "ble_circ_pop False False cb' = Inr (True, Nothing_delivered, cb')"
    and before: "\<forall>n. 0 < n \<and> n < length ?ms \<longrightarrow>
        (\<exists>cb1. push_all (take n ?ms) ring64 = Inr cb1 \<and>
           write_ptr cb1 = (read_ptr ring64 + total_encoded_size (take n ?ms)) mod 2 ^ 6 \<and>
           write_ptr cb1 \<noteq> read_ptr cb1 \<and>
           ble_circ_space cb1 = 2 ^ 6 - total_encoded_size (take n ?ms) \<and>
           ble_circ_pop False False cb1 =
             Inr (False, Leuart_start (hd ?ms) (length (hd ?ms)),
                  update_circ_readindex cb1 (encoded_size (hd ?ms))))"
    by blast
  from full(2) have buf: "cbuf cb' = encode_messages ?ms" by (simp add: r0)
  from before[rule_format, of 1] obtain cb1 where
    one: "push_all (take 1 ?ms) ring64 = Inr cb1"
      "write_ptr cb1 = (read_ptr ring64 + total_encoded_size (take 1 ?ms)) mod 2 ^ 6"
      "ble_circ_space cb1 = 2 ^ 6 - total_encoded_size (take 1 ?ms)"
      "ble_circ_pop False False cb1 =
         Inr (False, Leuart_start (hd ?ms) (length (hd ?ms)),
              update_circ_readindex cb1 (encoded_size (hd ?ms)))"
    by auto
  have r1: "read_ptr cb1 = 0"
    using one(1) unfolding sizes
    by (auto simp: ble_circ_push_def Let_def update_circ_wrtindex_def r0 split: if_splits)
  have second: "\<exists>cb1. push_all [take 50 msg63] ring64 = Inr cb1 \<and>
      write_ptr cb1 = 51 \<and> read_ptr cb1 = 0 \<and> ble_circ_space cb1 = 13 \<and>
      ble_circ_pop False False cb1 =
        Inr (False, Leuart_start (take 50 msg63) 50, update_circ_readindex cb1 51)"
    using one r1 unfolding sizes nums by (intro exI[of _ cb1]) (simp add: r0)
  have first: "\<exists>cb'. push_all ?ms ring64 = Inr cb' \<and>
      cbuf cb' = encode_messages ?ms \<and>
      cbuf cb' ! 0 = 51 \<and> cbuf cb' ! 1 = 1 \<and> cbuf cb' ! 50 = 50 \<and>
      cbuf cb' ! 51 = 13 \<and> cbuf cb' ! 52 = 1 \<and> cbuf cb' ! 63 = 12 \<and>
      write_ptr cb' = read_ptr cb' \<and> read_ptr cb' = 0 \<and>
      size_cb cb' = 64 \<and> ble_circ_space cb' = 64 \<and>
      ble_circ_pop False False cb' = Inr (True, Nothing_delivered, cb')"
    using full buf enc by (intro exI[of _ cb']) (simp add: r0)
  from h first second show ?thesis by blast
qed

text \<open>
  C5 says that pushes reaching exactly the capacity succeed and that the push of
  one byte more is fatal. The code does the first and not the second. With
  capacity 64, one message of 63 characters brings the total encoded size to
  exactly 64: the push succeeds, the write cursor
  is back at 0 and \<^verbatim>\<open>ble_circ_space\<close> answers 64. The push of the empty string, one
  byte more than the capacity, is then not fatal: it succeeds and overwrites the
  length byte of the queued message.
\<close>

theorem push_after_full_not_fatal:
  "total_encoded_size [msg63] = 64 \<and> total_encoded_size [msg63, []] = 64 + 1 \<and>
   (case push_all [msg63] ring64 of
      Inl h \<Rightarrow> False
    | Inr cb \<Rightarrow> read_ptr cb = 0 \<and> write_ptr cb = 0 \<and> cbuf cb ! 0 = 64 \<and>
        ble_circ_space cb = 64 \<and>
        (case ble_circ_push [] cb of
           Inl h \<Rightarrow> False
         | Inr cb' \<Rightarrow> read_ptr cb' = 0 \<and> write_ptr cb' = 1 \<and> cbuf cb' ! 0 = 1))"
  by code_simp

text \<open>
  C2 says that a message comes back from the pop that follows its push whenever
  its encoded size fits the available space. The code does not do it for the
  message that takes the whole capacity, here 64, with the cursors at 0 and at 60. A
  message of 63 characters has encoded size 64, which fits the 64 bytes that
  \<^verbatim>\<open>ble_circ_space\<close> reports. The push succeeds (from 60 the bytes wrap past index 63)
  and leaves the write cursor on the read cursor, so the pop that follows, with the
  transmitter idle, returns true and delivers nothing.
\<close>

theorem full_message_not_popped:
  "length msg63 = 63 \<and> ble_circ_space ring64 = 64 \<and>
   (case ble_circ_push msg63 ring64 of
      Inl h \<Rightarrow> False
    | Inr cb \<Rightarrow> ble_circ_pop False False cb = Inr (True, Nothing_delivered, cb)) \<and>
   ble_circ_space (ring64\<lparr>read_ptr := 60, write_ptr := 60\<rparr>) = 64 \<and>
   (case ble_circ_push msg63 (ring64\<lparr>read_ptr := 60, write_ptr := 60\<rparr>) of
      Inl h \<Rightarrow> False
    | Inr cb \<Rightarrow> cbuf cb ! 60 = 64 \<and> cbuf cb ! 61 = 1 \<and> cbuf cb ! 59 = 63 \<and>
        ble_circ_pop False False cb = Inr (True, Nothing_delivered, cb))"
  by code_simp

end
